theory Spec2Isabelle
  imports Complex_Main "HOL-Library.Sublist"
begin

section \<open>JavaScript strings\<close>

text \<open>
  A JavaScript string is modelled as a \<^typ>\<open>string\<close>, a list of characters. A
  \<^typ>\<open>char\<close> stands for one UTF-16 code unit in the range U+0000..U+00FF (Latin-1);
  every set of characters below (white space, digits, word characters, upper case) is the
  JavaScript set cut down to that range.
\<close>

text \<open>\<^verbatim>\<open>\s\<close> and the characters removed by \<^verbatim>\<open>String.prototype.trim\<close>:
  TAB, LF, VT, FF, CR, SPACE and NBSP.\<close>

definition whitespaceChars :: string where
  "whitespaceChars = [CHR 0x09, CHR 0x0A, CHR 0x0B, CHR 0x0C, CHR 0x0D, CHR '' '', CHR 0xA0]"

definition isSpace :: "char \<Rightarrow> bool" where
  "isSpace c = (c \<in> set whitespaceChars)"

text \<open>\<^verbatim>\<open>\d\<close>\<close>

definition isDigit :: "char \<Rightarrow> bool" where
  "isDigit c = (c \<in> set ''0123456789'')"

text \<open>The characters that \<^verbatim>\<open>.\<close> does not match: the line terminators LF and CR.\<close>

definition isLineTerminator :: "char \<Rightarrow> bool" where
  "isLineTerminator c = (c = CHR 0x0A \<or> c = CHR 0x0D)"

definition trim :: "string \<Rightarrow> string" where
  "trim s = rev (dropWhile isSpace (rev (dropWhile isSpace s)))"

definition upperChars :: string where
  "upperChars = ''ABCDEFGHIJKLMNOPQRSTUVWXYZ'' @
     [CHR 0xC0, CHR 0xC1, CHR 0xC2, CHR 0xC3, CHR 0xC4, CHR 0xC5, CHR 0xC6, CHR 0xC7,
      CHR 0xC8, CHR 0xC9, CHR 0xCA, CHR 0xCB, CHR 0xCC, CHR 0xCD, CHR 0xCE, CHR 0xCF,
      CHR 0xD0, CHR 0xD1, CHR 0xD2, CHR 0xD3, CHR 0xD4, CHR 0xD5, CHR 0xD6,
      CHR 0xD8, CHR 0xD9, CHR 0xDA, CHR 0xDB, CHR 0xDC, CHR 0xDD, CHR 0xDE]"

definition lowerChars :: string where
  "lowerChars = ''abcdefghijklmnopqrstuvwxyz'' @
     [CHR 0xE0, CHR 0xE1, CHR 0xE2, CHR 0xE3, CHR 0xE4, CHR 0xE5, CHR 0xE6, CHR 0xE7,
      CHR 0xE8, CHR 0xE9, CHR 0xEA, CHR 0xEB, CHR 0xEC, CHR 0xED, CHR 0xEE, CHR 0xEF,
      CHR 0xF0, CHR 0xF1, CHR 0xF2, CHR 0xF3, CHR 0xF4, CHR 0xF5, CHR 0xF6,
      CHR 0xF8, CHR 0xF9, CHR 0xFA, CHR 0xFB, CHR 0xFC, CHR 0xFD, CHR 0xFE]"

definition lowerChar :: "char \<Rightarrow> char" where
  "lowerChar c = (case map_of (zip upperChars lowerChars) c of Some l \<Rightarrow> l | None \<Rightarrow> c)"

definition toLowerCase :: "string \<Rightarrow> string" where
  "toLowerCase s = map lowerChar s"

text \<open>\<^verbatim>\<open>s.includes(k)\<close>: \<open>k\<close> occurs in \<open>s\<close> as a contiguous substring.\<close>

fun str_includes :: "string \<Rightarrow> string \<Rightarrow> bool" where
  "str_includes [] k = (k = [])"
| "str_includes (c # cs) k = (prefix k (c # cs) \<or> str_includes cs k)"

text \<open>\<^verbatim>\<open>xs.slice(-n)\<close>: the last \<open>n\<close> elements, all of them when there are fewer.\<close>

definition slice_last :: "nat \<Rightarrow> 'a list \<Rightarrow> 'a list" where
  "slice_last n xs = drop (length xs - n) xs"

text \<open>\<^verbatim>\<open>s.substring(0, n)\<close>\<close>

definition substring0 :: "nat \<Rightarrow> string \<Rightarrow> string" where
  "substring0 n s = take n s"

section \<open>Messages and the text classifiers (server)\<close>

record chat_message =
  role :: string
  content :: string

definition CONSULTATION_KEYWORDS :: "string list" where
  "CONSULTATION_KEYWORDS =
    [''consultation'', ''consult'', ''meeting'', ''discuss'', ''talk'', ''speak'',
     ''quote'', ''pricing'', ''cost'', ''price'', ''estimate'', ''project'',
     ''book'', ''schedule'', ''appointment'', ''contact'', ''reach out'',
     ''interested'', ''learn more'', ''details'']"

definition DOMAIN_KEYWORDS :: "string list" where
  "DOMAIN_KEYWORDS =
    [''das'', ''distributed antenna'', ''in-building'', ''signal'', ''coverage'',
     ''carrier'', ''cellular'', ''5g'', ''lte'', ''public safety'', ''radio'',
     ''wifi'', ''wireless'', ''linkwave'', ''network'', ''installation'',
     ''design'', ''testing'', ''maintenance'', ''deployment'', ''building'',
     ''tunnel'', ''transit'', ''hospital'', ''stadium'', ''campus'', ''office'',
     ''rf'', ''antenna'', ''website'', ''services'', ''careers'', ''projects'',
     ''team'', ''faq'', ''learn'', ''company'']"

text \<open>\<^verbatim>\<open>(m.content || '')\<close> on a string: the empty string is the only falsy one.\<close>

definition or_empty :: "string \<Rightarrow> string" where
  "or_empty s = (if s = [] then [] else s)"

definition detectConsultationIntent :: "string \<Rightarrow> chat_message list \<Rightarrow> bool" where
  "detectConsultationIntent message history =
     (let lower = toLowerCase message in
      if list_ex (\<lambda>k. str_includes lower k) CONSULTATION_KEYWORDS then True
      else
        let recent = filter (\<lambda>m. role m = ''user'') (slice_last 3 history) in
        list_ex (\<lambda>m. list_ex (\<lambda>k. str_includes (toLowerCase (or_empty (content m))) k)
                          CONSULTATION_KEYWORDS) recent)"

definition hasDomainContext :: "chat_message list \<Rightarrow> bool" where
  "hasDomainContext history =
     (let recent = filter (\<lambda>m. role m = ''user'') (slice_last 3 history) in
      list_ex (\<lambda>m. list_ex (\<lambda>k. str_includes (toLowerCase (or_empty (content m))) k)
                        DOMAIN_KEYWORDS) recent)"

definition isRepeated :: "string \<Rightarrow> chat_message list \<Rightarrow> bool" where
  "isRepeated message history =
     (let norm = trim (toLowerCase message);
          recent = slice_last 3 (filter (\<lambda>m. role m = ''user'') history) in
      if length recent < 3 then False
      else list_all (\<lambda>m. trim (toLowerCase (or_empty (content m))) = norm) recent)"

text \<open>
  The reading of the specification for the consultation detector: the window is the last
  three user-role messages of the history (filter first, then the last three), as
  \<open>isRepeated\<close> takes it.
\<close>

definition detectConsultationIntent_spec :: "string \<Rightarrow> chat_message list \<Rightarrow> bool" where
  "detectConsultationIntent_spec message history =
     (list_ex (\<lambda>k. str_includes (toLowerCase message) k) CONSULTATION_KEYWORDS \<or>
      list_ex (\<lambda>m. list_ex (\<lambda>k. str_includes (toLowerCase (content m)) k) CONSULTATION_KEYWORDS)
        (slice_last 3 (filter (\<lambda>m. role m = ''user'') history)))"

section \<open>Response normalisers (server)\<close>

text \<open>The fixed call-to-action sentence; \<open>CHR 0x22\<close> is the double quote.\<close>

definition CTA :: string where
  "CTA = ''Please click the '' @ [CHR 0x22] @ ''Book Consultation'' @ [CHR 0x22] @
         '' button below to connect with our team.''"

text \<open>
  The alternatives of the case-insensitive pattern
  \<^verbatim>\<open>/book consultation|button below|click the button|use the button|press the button|select the button/i\<close>.
  Each alternative is a literal of lower-case ASCII letters and spaces, so the pattern
  matches somewhere in a string exactly when the lower-cased string contains one of them.
\<close>

definition BUTTON_PHRASES :: "string list" where
  "BUTTON_PHRASES =
     [''book consultation'', ''button below'', ''click the button'', ''use the button'',
      ''press the button'', ''select the button'']"

definition alreadyMentionsButton :: "string \<Rightarrow> bool" where
  "alreadyMentionsButton base = list_ex (\<lambda>p. str_includes (toLowerCase base) p) BUTTON_PHRASES"

definition appendConsultationCTA :: "string \<Rightarrow> string" where
  "appendConsultationCTA text =
     (let base = trim (or_empty text);
          cta = CTA in
      if base = [] then ''Thanks for your interest. '' @ cta
      else if alreadyMentionsButton base then base
      else base @ [CHR 0x0A, CHR 0x0A] @ cta)"

text \<open>\<^verbatim>\<open>text.split('\n')\<close>: never empty; the empty text gives one empty line.\<close>

fun split_lines :: "string \<Rightarrow> string list" where
  "split_lines [] = [[]]"
| "split_lines (c # cs) =
     (if c = CHR 0x0A then [] # split_lines cs
      else (case split_lines cs of [] \<Rightarrow> [[c]] | l # ls \<Rightarrow> (c # l) # ls))"

text \<open>\<^verbatim>\<open>lines.join('\n')\<close>\<close>

fun join_lines :: "string list \<Rightarrow> string" where
  "join_lines [] = []"
| "join_lines [l] = l"
| "join_lines (l # ls) = l @ CHR 0x0A # join_lines ls"

text \<open>The decimal numeral of a number, as a template literal prints it.\<close>

definition digitChar :: "nat \<Rightarrow> char" where
  "digitChar d = ''0123456789'' ! d"

function showNat :: "nat \<Rightarrow> string" where
  "showNat n = (if n < 10 then [digitChar n] else showNat (n div 10) @ [digitChar (n mod 10)])"
  by pat_completeness auto
termination
  by (relation "measure (\<lambda>n. n)") auto

declare showNat.simps [simp del]

text \<open>
  The match of \<^verbatim>\<open>/^(\s*)(\*\*)?(\d+)([.\)])(\*\*)?\s+(.*)$/\<close> against a line, giving
  the groups 1 (indent) and 6 (content). Every greedy group has one length only at which the
  rest can match (the character after the white space, after the digits and after the
  punctuation decides), so the match is computed left to right without backtracking; the
  content is what follows the white space, and \<^verbatim>\<open>(.*)$\<close> matches it when it holds no
  line terminator.
\<close>

definition matchNumbered :: "string \<Rightarrow> (string \<times> string) option" where
  "matchNumbered line =
     (let indent = takeWhile isSpace line;
          r1 = dropWhile isSpace line;
          r2 = (if prefix ''**'' r1 then drop 2 r1 else r1);
          digits = takeWhile isDigit r2;
          r3 = dropWhile isDigit r2 in
      if digits = [] then None
      else case r3 of
        [] \<Rightarrow> None
      | p # r4 \<Rightarrow>
          if p \<noteq> CHR ''.'' \<and> p \<noteq> CHR '')'' then None
          else
            let r5 = (if prefix ''**'' r4 then drop 2 r4 else r4);
                content = dropWhile isSpace r5 in
            if takeWhile isSpace r5 = [] then None
            else if list_ex isLineTerminator content then None
            else Some (indent, content))"

text \<open>The loop of \<open>fixNumberedLists\<close>; \<open>num\<close> is the counter.\<close>

fun fixLines :: "nat \<Rightarrow> string list \<Rightarrow> string list" where
  "fixLines num [] = []"
| "fixLines num (line # rest) =
     (case matchNumbered line of
        Some (indent, content') \<Rightarrow>
          (indent @ showNat num @ ''. '' @ content') # fixLines (num + 1) rest
      | None \<Rightarrow>
          if trim line = [] then line # fixLines 1 rest
          else line # fixLines num rest)"

definition fixNumberedLists :: "string \<Rightarrow> string" where
  "fixNumberedLists text = join_lines (fixLines 1 (split_lines text))"

text \<open>
  The renumbering in the words of the specification: a matched line gets the number one
  more than the count of matched lines between the last blank line before it (or the start
  of the text) and itself; other lines are kept.
\<close>

definition item_number :: "string list \<Rightarrow> nat" where
  "item_number before =
     Suc (length (filter (\<lambda>l. matchNumbered l \<noteq> None)
                    (takeWhile (\<lambda>l. trim l \<noteq> []) (rev before))))"

definition renumbered :: "string list \<Rightarrow> string \<Rightarrow> string" where
  "renumbered before line =
     (case matchNumbered line of
        Some (indent, content') \<Rightarrow> indent @ showNat (item_number before) @ ''. '' @ content'
      | None \<Rightarrow> line)"

text \<open>
  The test \<^verbatim>\<open>/^\s*(\d+[.\)]|[-*])\s+/\<close>: white space, then either digits and one of
  \<open>.\<close> and \<open>)\<close>, or one of \<open>-\<close> and \<open>*\<close>, then at least one white-space character.
\<close>

definition isListItem :: "string \<Rightarrow> bool" where
  "isListItem line =
     (let r1 = dropWhile isSpace line in
      case r1 of
        [] \<Rightarrow> False
      | c # r2 \<Rightarrow>
          if isDigit c then
            (case dropWhile isDigit r1 of
               [] \<Rightarrow> False
             | p # r4 \<Rightarrow> (p = CHR ''.'' \<or> p = CHR '')'') \<and> takeWhile isSpace r4 \<noteq> [])
          else if c = CHR ''-'' \<or> c = CHR ''*'' then takeWhile isSpace r2 \<noteq> []
          else False)"

text \<open>The loop of \<open>limitList\<close> with its two variables; the result is the list \<open>result\<close>.\<close>

fun limitLines :: "nat \<Rightarrow> bool \<Rightarrow> string list \<Rightarrow> string list" where
  "limitLines listCount inList [] = []"
| "limitLines listCount inList (line # rest) =
     (if isListItem line then
        (let listCount0 = (if \<not> inList then 0 else listCount);
             listCount1 = listCount0 + 1 in
         (if listCount1 \<le> 3 then [line] else []) @ limitLines listCount1 True rest)
      else if trim line = [] \<and> inList then line # limitLines 0 False rest
      else line # limitLines listCount inList rest)"

definition limitList :: "string \<Rightarrow> string" where
  "limitList text = join_lines (limitLines 0 False (split_lines text))"

text \<open>
  The capping in the words of the specification: a run of list-item lines ends at a blank
  line and at any other line that is not a list item, and the first three lines of each run
  are kept. \<open>k\<close> counts the list-item lines of the current run.
\<close>

fun limitRuns :: "nat \<Rightarrow> string list \<Rightarrow> string list" where
  "limitRuns k [] = []"
| "limitRuns k (line # rest) =
     (if isListItem line then
        (if k < 3 then line # limitRuns (Suc k) rest else limitRuns (Suc k) rest)
      else line # limitRuns 0 rest)"

definition limitList_spec :: "string \<Rightarrow> string" where
  "limitList_spec text = join_lines (limitRuns 0 (split_lines text))"

text \<open>The number of list-item lines since the last blank line of the lines read so far.\<close>

definition items_since_blank :: "string list \<Rightarrow> nat" where
  "items_since_blank before =
     length (filter isListItem (takeWhile (\<lambda>l. trim l \<noteq> []) (rev before)))"

text \<open>Whether a line is kept: every line but a list item with three list items already in
  its block.\<close>

definition kept :: "string list \<Rightarrow> string \<Rightarrow> bool" where
  "kept before line = (\<not> isListItem line \<or> items_since_blank before < 3)"

text \<open>The lines at the positions of \<open>ls\<close> where \<open>kept\<close> holds, \<open>before\<close> being the lines
  in front of \<open>ls\<close>.\<close>

fun kept_lines :: "string list \<Rightarrow> string list \<Rightarrow> string list" where
  "kept_lines before [] = []"
| "kept_lines before (line # rest) =
     (if kept before line then line # kept_lines (before @ [line]) rest
      else kept_lines (before @ [line]) rest)"

text \<open>A scan for runs of list-item lines: \<open>k\<close> is the length of the run that ends in front
  of the lines still to read; no run may grow beyond three lines.\<close>

fun run_ok :: "nat \<Rightarrow> string list \<Rightarrow> bool" where
  "run_ok k [] = True"
| "run_ok k (line # rest) =
     (if isListItem line then k < 3 \<and> run_ok (Suc k) rest else run_ok 0 rest)"

section \<open>Request validation (server)\<close>

text \<open>
  A value of a parsed JSON request body. An object is the list of its members in the order
  of the text; a later member with the same name replaces an earlier one.
\<close>

datatype json =
    JNull
  | JBool bool
  | JNum int
  | JStr string
  | JArr "json list"
  | JObj "(string \<times> json) list"

text \<open>\<^verbatim>\<open>typeof v\<close>\<close>

fun js_typeof :: "json \<Rightarrow> string" where
  "js_typeof JNull = ''object''"
| "js_typeof (JBool b) = ''boolean''"
| "js_typeof (JNum n) = ''number''"
| "js_typeof (JStr s) = ''string''"
| "js_typeof (JArr xs) = ''object''"
| "js_typeof (JObj kvs) = ''object''"

text \<open>Truthiness of a value, as \<^verbatim>\<open>msg && ...\<close> tests it.\<close>

fun truthy :: "json \<Rightarrow> bool" where
  "truthy JNull = False"
| "truthy (JBool b) = b"
| "truthy (JNum n) = (n \<noteq> 0)"
| "truthy (JStr s) = (s \<noteq> [])"
| "truthy (JArr xs) = True"
| "truthy (JObj kvs) = True"

text \<open>
  \<^verbatim>\<open>msg.role\<close> and \<^verbatim>\<open>msg.content\<close>: the member of an object, \<open>None\<close> for
  \<^verbatim>\<open>undefined\<close>. Neither name is a property of an array or of a primitive value.
\<close>

fun js_get :: "json \<Rightarrow> string \<Rightarrow> json option" where
  "js_get (JObj kvs) k = map_of (rev kvs) k"
| "js_get v k = None"

fun sanitizeString :: "json \<Rightarrow> nat \<Rightarrow> string" where
  "sanitizeString (JStr str) maxLength =
     (let sanitized = trim (filter (\<lambda>c. c \<noteq> CHR 0x00) str) in
      if length sanitized > maxLength then substring0 maxLength sanitized else sanitized)"
| "sanitizeString v maxLength = []"

text \<open>The predicate of the \<^verbatim>\<open>filter\<close> in \<open>validateConversationHistory\<close>.\<close>

definition valid_entry :: "json \<Rightarrow> bool" where
  "valid_entry msg =
     (truthy msg \<and>
      js_typeof msg = ''object'' \<and>
      (js_get msg ''role'' = Some (JStr ''user'') \<or>
       js_get msg ''role'' = Some (JStr ''assistant'')) \<and>
      (case js_get msg ''content'' of
         Some (JStr c) \<Rightarrow> length c > 0 \<and> length c \<le> 2000
       | _ \<Rightarrow> False))"

text \<open>The string held by a member that the filter has found to be a string.\<close>

fun string_of :: "json option \<Rightarrow> string" where
  "string_of (Some (JStr s)) = s"
| "string_of v = []"

text \<open>The function of the \<^verbatim>\<open>map\<close> in \<open>validateConversationHistory\<close>.\<close>

definition sanitized_entry :: "json \<Rightarrow> chat_message" where
  "sanitized_entry msg =
     \<lparr>role = string_of (js_get msg ''role''),
      content = sanitizeString (case js_get msg ''content'' of Some c \<Rightarrow> c | None \<Rightarrow> JNull) 250\<rparr>"

fun validateConversationHistory :: "json \<Rightarrow> chat_message list" where
  "validateConversationHistory (JArr history) =
     map sanitized_entry (filter valid_entry (slice_last 10 history))"
| "validateConversationHistory v = []"

text \<open>
  The other order the specification speaks of: the entries are filtered first and the
  result is capped to its last ten.
\<close>

fun validate_filter_then_cap :: "json \<Rightarrow> chat_message list" where
  "validate_filter_then_cap (JArr history) =
     map sanitized_entry (slice_last 10 (filter valid_entry history))"
| "validate_filter_then_cap v = []"

text \<open>A history of twelve entries: an entry with a role that is not accepted, a number, and
  ten valid entries.\<close>

definition history12 :: json where
  "history12 = JArr (JObj [(''role'', JStr ''system''), (''content'', JStr ''old'')] #
                     JNum 7 #
                     replicate 10 (JObj [(''role'', JStr ''user''), (''content'', JStr '' hi '')]))"


section \<open>Off-topic check (server)\<close>

text \<open>\<^verbatim>\<open>\w\<close>: an ASCII letter, a digit or the underscore.\<close>

definition isWordChar :: "char \<Rightarrow> bool" where
  "isWordChar c =
     (c \<in> set ''abcdefghijklmnopqrstuvwxyzABCDEFGHIJKLMNOPQRSTUVWXYZ0123456789_'')"

text \<open>\<^verbatim>\<open>[A-Za-z]\<close>\<close>

definition isAsciiLetter :: "char \<Rightarrow> bool" where
  "isAsciiLetter c = (c \<in> set ''abcdefghijklmnopqrstuvwxyzABCDEFGHIJKLMNOPQRSTUVWXYZ'')"

text \<open>\<^verbatim>\<open>\b\<close> behind a matched word that ends in a letter: the text ends there or goes
  on with a character that is not a word character.\<close>

definition boundary_after :: "string \<Rightarrow> bool" where
  "boundary_after r = (case r of [] \<Rightarrow> True | c # cs \<Rightarrow> \<not> isWordChar c)"

text \<open>
  \<^verbatim>\<open>/^(hi|hello|hey|good\s*(morning|afternoon|evening))\b/i\<close> on a lower-cased text.
  No two alternatives can match the same text, so the first that matches decides; the
  text is lower-cased already, so the flag \<open>i\<close> changes nothing.
\<close>

definition isGreeting :: "string \<Rightarrow> bool" where
  "isGreeting lower =
     (list_ex (\<lambda>w. prefix w lower \<and> boundary_after (drop (length w) lower))
        [''hi'', ''hello'', ''hey''] \<or>
      (prefix ''good'' lower \<and>
       (let r = dropWhile isSpace (drop 4 lower) in
        list_ex (\<lambda>w. prefix w r \<and> boundary_after (drop (length w) r))
          [''morning'', ''afternoon'', ''evening''])))"

text \<open>\<^verbatim>\<open>/^(list|summarize|summary|bullet|outline)/i\<close> on a lower-cased text.\<close>

definition isMetaRequest :: "string \<Rightarrow> bool" where
  "isMetaRequest lower =
     list_ex (\<lambda>w. prefix w lower) [''list'', ''summarize'', ''summary'', ''bullet'', ''outline'']"

definition isOffTopic :: "string \<Rightarrow> chat_message list \<Rightarrow> bool" where
  "isOffTopic message history =
     (let lower = trim (toLowerCase message) in
      if isGreeting lower then False
      else if isMetaRequest lower \<and> hasDomainContext history then False
      else if list_ex (\<lambda>k. str_includes lower k) DOMAIN_KEYWORDS then False
      else \<not> hasDomainContext history)"

section \<open>The chat endpoint (server)\<close>

text \<open>\<^verbatim>\<open>text.replace(/([.!?])([A-Za-z])/g, '$1 $2')\<close>\<close>

fun fixSpacing :: "string \<Rightarrow> string" where
  "fixSpacing (c # d # rest) =
     (if c \<in> set ''.!?'' \<and> isAsciiLetter d then c # CHR '' '' # d # fixSpacing rest
      else c # fixSpacing (d # rest))"
| "fixSpacing s = s"

text \<open>\<^verbatim>\<open>s.split(/\s+/)\<close>: the pieces between the maximal runs of white space.\<close>

function split_ws :: "string \<Rightarrow> string list" where
  "split_ws s =
     (let w = takeWhile (\<lambda>c. \<not> isSpace c) s;
          r = dropWhile (\<lambda>c. \<not> isSpace c) s in
      if r = [] then [w] else w # split_ws (dropWhile isSpace r))"
  by pat_completeness auto
termination
proof (relation "measure length")
  show "wf (measure length)" by simp
next
  fix s :: string and w r
  assume r: "r = dropWhile (\<lambda>c. \<not> isSpace c) s" and ne: "r \<noteq> []"
  from ne obtain c r' where cr: "r = c # r'" by (cases r) auto
  have "\<not> \<not> isSpace (hd r)" using ne unfolding r by (rule hd_dropWhile)
  then have "isSpace c" using cr by simp
  then have "dropWhile isSpace r = dropWhile isSpace r'" using cr by simp
  then have "length (dropWhile isSpace r) \<le> length r'"
    by (simp add: length_dropWhile_le)
  also have "\<dots> < length r" using cr by simp
  also have "\<dots> \<le> length s" unfolding r by (rule length_dropWhile_le)
  finally show "(dropWhile isSpace r, s) \<in> measure length" by simp
qed

declare split_ws.simps [simp del]

text \<open>
  What the handler takes from outside: the persona text \<open>SYSTEM_PROMPT\<close>, the two
  rewriting functions \<open>removeContactInfo\<close> and \<open>fixButtonReferences\<close> (chains of
  regular-expression replacements, text to text, that no property below looks into), and
  the completion call of the provider.
\<close>

record completion_request =
  req_model :: string
  req_messages :: "chat_message list"
  req_temperature :: rat
  req_max_tokens :: nat

text \<open>An exception value: its \<^verbatim>\<open>name\<close>, its \<^verbatim>\<open>status\<close> (\<open>None\<close> when it has
  none) and its \<^verbatim>\<open>message\<close>.\<close>

record js_error =
  err_name :: string
  err_status :: "int option"
  err_message :: string

text \<open>
  The provider: it answers a request with the content of the first choice or throws. A
  completion from which the handler cannot read a content string makes the handler throw a
  \<open>TypeError\<close> without status; the provider function returns that one as its error.
\<close>

type_synonym provider = "completion_request \<Rightarrow> js_error + string"

record environment =
  SYSTEM_PROMPT :: string
  removeContactInfo :: "string \<Rightarrow> string"
  fixButtonReferences :: "string \<Rightarrow> string"
  complete :: provider

datatype response_body =
    ChatBody string bool
  | ErrorBody string string
  | InvalidBody string

text \<open>A response: the HTTP status and the JSON body. \<open>ChatBody response consultationIntent\<close>,
  \<open>ErrorBody error message\<close> and \<open>InvalidBody error\<close> are the three shapes the handler sends.\<close>

datatype http_response = Reply int response_body

definition REPEATED_TEXT :: string where
  "REPEATED_TEXT = ''I want to be helpful, but I can't keep repeating the same answer. Could you rephrase or ask a different question about DAS, wireless coverage, or the Linkwave website?''"

definition OFF_TOPIC_TEXT :: string where
  "OFF_TOPIC_TEXT = ''I'm here to help with DAS, wireless coverage, and Linkwave services. If you have a question about those topics or the website, I'd be happy to help.''"

definition GENERIC_ERROR_TEXT :: string where
  "GENERIC_ERROR_TEXT = ''An error occurred. Please try again later.''"

text \<open>The post-processing of the completion text.\<close>

definition postProcess :: "environment \<Rightarrow> bool \<Rightarrow> string \<Rightarrow> string" where
  "postProcess env consultationIntent response0 =
     (let response1 = fixSpacing response0;
          response2 = fixNumberedLists response1;
          response3 = limitList response2 in
      if consultationIntent then
        appendConsultationCTA (fixButtonReferences env (removeContactInfo env response3))
      else fixButtonReferences env response3)"

text \<open>The \<^verbatim>\<open>catch\<close> block of the handler: the response for an exception.\<close>

definition errorResponse :: "js_error \<Rightarrow> http_response" where
  "errorResponse error =
     (let statusCode = (case err_status error of
                          None \<Rightarrow> 500
                        | Some s \<Rightarrow> if s = 0 then 500 else s);
          errorMessage = (if statusCode = 500 then GENERIC_ERROR_TEXT
                          else if err_message error = [] then ''An error occurred''
                          else err_message error) in
      Reply statusCode (ErrorBody ''Request failed'' errorMessage))"

text \<open>The request sent to the provider for a message and a history.\<close>

definition buildRequest :: "environment \<Rightarrow> string \<Rightarrow> chat_message list \<Rightarrow> completion_request" where
  "buildRequest env message conversationHistory =
     (let messages = [\<lparr>role = ''system'', content = SYSTEM_PROMPT env\<rparr>] @
                     slice_last 10 conversationHistory @
                     [\<lparr>role = ''user'', content = message\<rparr>];
          isShortQuery = (length (split_ws (trim message)) \<le> 6) in
      \<lparr>req_model = ''gpt-4o-mini'', req_messages = messages, req_temperature = 7 / 10,
       req_max_tokens = (if isShortQuery then 180 else 500)\<rparr>)"

text \<open>
  The handler from the repeated-question check on, for the sanitized message and the
  validated history. The result is the response and the list of the requests that were
  sent to the provider, in order.
\<close>

definition gateAndComplete ::
  "environment \<Rightarrow> string \<Rightarrow> chat_message list \<Rightarrow> http_response \<times> completion_request list" where
  "gateAndComplete env message conversationHistory =
     (if isRepeated message conversationHistory then
        (Reply 200 (ChatBody REPEATED_TEXT False), [])
      else
        let consultationIntent = detectConsultationIntent message conversationHistory in
        if \<not> consultationIntent \<and> isOffTopic message conversationHistory then
          (Reply 200 (ChatBody OFF_TOPIC_TEXT False), [])
        else
          let request = buildRequest env message conversationHistory in
          case complete env request of
            Inl openaiError \<Rightarrow>
              (errorResponse
                 (if err_name openaiError = ''AbortError''
                  then \<lparr>err_name = ''Error'', err_status = None, err_message = ''Request timeout''\<rparr>
                  else openaiError),
               [request])
          | Inr response0 \<Rightarrow>
              (Reply 200 (ChatBody (postProcess env consultationIntent response0) consultationIntent),
               [request]))"

text \<open>
  The handler of \<^verbatim>\<open>POST /api/chat\<close> behind the validation chain: \<open>message\<close> is the
  trimmed, escaped string of the body and \<open>conversationHistory\<close> its array, \<open>None\<close> when
  the body has none.
\<close>

definition chatHandler ::
  "environment \<Rightarrow> string \<Rightarrow> json option \<Rightarrow> http_response \<times> completion_request list" where
  "chatHandler env message0 conversationHistory0 =
     (let message = sanitizeString (JStr message0) 250 in
      if message = [] then (Reply 400 (InvalidBody ''Message is required''), [])
      else
        let conversationHistory =
              validateConversationHistory
                (case conversationHistory0 of None \<Rightarrow> JArr [] | Some h \<Rightarrow> h) in
        gateAndComplete env message conversationHistory)"

text \<open>An environment for the examples: the rewriting functions leave the text as it is and
  the provider answers every request with the same sentence.\<close>

definition example_env :: environment where
  "example_env =
     \<lparr>SYSTEM_PROMPT = ''You are the Linkwave Wireless assistant.'',
      removeContactInfo = (\<lambda>t. t),
      fixButtonReferences = (\<lambda>t. t),
      complete = (\<lambda>request. Inr ''A DAS spreads cellular signal.Ask me more.'')\<rparr>"

text \<open>The same environment with a provider that throws an error with the status 503.\<close>

definition failing_env :: environment where
  "failing_env =
     example_env\<lparr>complete := (\<lambda>request.
        Inl \<lparr>err_name = ''APIError'', err_status = Some 503,
             err_message = ''503 upstream failure at api.provider.internal for org-4711''\<rparr>)\<rparr>"

section \<open>Rendering (client)\<close>

text \<open>
  \<open>escapeHtml\<close> sets the text as the text content of an element and reads the element's
  markup back. The browser's serialisation of a text node replaces \<open>&\<close>, \<open><\<close>, \<open>>\<close> and
  the no-break space by \<open>&amp;\<close>, \<open>&lt;\<close>, \<open>&gt;\<close> and \<open>&nbsp;\<close>.
\<close>

definition escapeChar :: "char \<Rightarrow> string" where
  "escapeChar c =
     (if c = CHR ''&'' then ''&amp;''
      else if c = CHR ''<'' then ''&lt;''
      else if c = CHR ''>'' then ''&gt;''
      else if c = CHR 0xA0 then ''&nbsp;''
      else [c])"

definition escapeHtml :: "string \<Rightarrow> string" where
  "escapeHtml unsafe = concat (map escapeChar unsafe)"

text \<open>
  The lazy group and the closing marker of \<^verbatim>\<open>/\*\*(.*?)\*\*/\<close>, read behind an
  opening marker: the shortest text without a line terminator that is followed by \<open>**\<close>,
  and the text behind that marker.
\<close>

fun find_close :: "string \<Rightarrow> (string \<times> string) option" where
  "find_close [] = None"
| "find_close (c # cs) =
     (if prefix ''**'' (c # cs) then Some ([], drop 2 (c # cs))
      else if isLineTerminator c then None
      else (case find_close cs of None \<Rightarrow> None | Some (a, r) \<Rightarrow> Some (c # a, r)))"

text \<open>
  \<^verbatim>\<open>s.replace(/\*\*(.*?)\*\*/g, '<strong>$1</strong>')\<close>: the matches are taken from
  left to right, and the search goes on behind each match. \<open>skip\<close> is the number of
  characters of the current match that are still to be passed over.
\<close>

fun boldScan :: "nat \<Rightarrow> string \<Rightarrow> string" where
  "boldScan skip [] = []"
| "boldScan (Suc skip) (c # cs) = boldScan skip cs"
| "boldScan 0 (c # cs) =
     (if prefix ''**'' (c # cs) then
        (case find_close (drop 1 cs) of
           Some (a, r) \<Rightarrow> ''<strong>'' @ a @ ''</strong>'' @ boldScan (length a + 3) cs
         | None \<Rightarrow> c # boldScan 0 cs)
      else c # boldScan 0 cs)"

definition boldReplace :: "string \<Rightarrow> string" where
  "boldReplace s = boldScan 0 s"

text \<open>
  The tail \<^verbatim>\<open>\s+(.+)$\<close> of the two list-item patterns, giving the group: the white
  space is taken as far as it goes, and the rest must be without line terminator. When
  nothing follows the white space, the group is the last white-space character, given back
  by the white space.
\<close>

definition ws_then_rest :: "string \<Rightarrow> string option" where
  "ws_then_rest s =
     (let ws = takeWhile isSpace s;
          r = dropWhile isSpace s in
      if ws = [] then None
      else if list_ex isLineTerminator r then None
      else if r \<noteq> [] then Some r
      else if 2 \<le> length ws \<and> \<not> isLineTerminator (last ws) then Some [last ws]
      else None)"

text \<open>Group 2 of \<^verbatim>\<open>/^(\d+)\.\s+(.+)$/\<close>.\<close>

definition numberedMatch :: "string \<Rightarrow> string option" where
  "numberedMatch trimmed =
     (let digits = takeWhile isDigit trimmed;
          r = dropWhile isDigit trimmed in
      if digits = [] then None
      else case r of
        [] \<Rightarrow> None
      | p # r1 \<Rightarrow> if p = CHR ''.'' then ws_then_rest r1 else None)"

text \<open>Group 1 of the bullet pattern. Its character class holds \<open>-\<close>, \<open>*\<close> and the
  characters U+00E2, U+20AC and U+00A2 as the source file has them; U+20AC is outside
  the characters of the model.\<close>

definition bulletMatch :: "string \<Rightarrow> string option" where
  "bulletMatch trimmed =
     (case trimmed of
        [] \<Rightarrow> None
      | c # r \<Rightarrow> if c \<in> set [CHR ''-'', CHR ''*'', CHR 0xE2, CHR 0xA2] then ws_then_rest r
                 else None)"

text \<open>The state of the loop of \<open>markdownToHTML\<close>: \<open>result\<close>, \<open>currentList\<close> and
  \<open>listItems\<close>.\<close>

type_synonym render_state = "string list \<times> string option \<times> string list"

definition closeCurrentList :: "render_state \<Rightarrow> render_state" where
  "closeCurrentList st =
     (case st of (result, currentList, listItems) \<Rightarrow>
        (case currentList of
           Some tag \<Rightarrow>
             if listItems \<noteq> [] then
               (result @ [''<'' @ tag @ ''>'' @ concat listItems @ ''</'' @ tag @ ''>''], None, [])
             else (result, None, listItems)
         | None \<Rightarrow> (result, None, listItems)))"

text \<open>A list item of the kind \<open>tag\<close> (\<open>ol\<close> or \<open>ul\<close>) with the text \<open>item\<close>.\<close>

definition pushItem :: "string \<Rightarrow> string \<Rightarrow> render_state \<Rightarrow> render_state" where
  "pushItem tag item st =
     (case (if fst (snd st) \<noteq> Some tag
            then (case closeCurrentList st of (result, currentList, listItems) \<Rightarrow>
                    (result, Some tag, listItems))
            else st) of
        (result, currentList, listItems) \<Rightarrow>
          (result, currentList, listItems @ [''<li>'' @ boldReplace (escapeHtml item) @ ''</li>'']))"

definition renderLine :: "render_state \<Rightarrow> string \<Rightarrow> render_state" where
  "renderLine st line =
     (let trimmed = trim line in
      case numberedMatch trimmed of
        Some item \<Rightarrow> pushItem ''ol'' item st
      | None \<Rightarrow>
          (case bulletMatch trimmed of
             Some item \<Rightarrow> pushItem ''ul'' item st
           | None \<Rightarrow>
               (case closeCurrentList st of (result, currentList, listItems) \<Rightarrow>
                  if trimmed \<noteq> [] then
                    (result @ [boldReplace (escapeHtml trimmed)], currentList, listItems)
                  else (result, currentList, listItems))))"

text \<open>The \<^verbatim>\<open>map\<close> over the filtered lines: \<open>prev\<close> is the line in front, \<open>None\<close> at
  the first line.\<close>

fun addBreaks :: "string option \<Rightarrow> string list \<Rightarrow> string list" where
  "addBreaks prev [] = []"
| "addBreaks prev (line # rest) =
     (if (case prev of
            None \<Rightarrow> False
          | Some p \<Rightarrow> p \<noteq> [] \<and> (str_includes p ''<ol>'' \<or> str_includes p ''<ul>'')) \<and>
         line \<noteq> [] \<and> \<not> prefix ''<'' line
      then ''<br>'' @ line
      else line) # addBreaks (Some line) rest"

definition markdownToHTML :: "string \<Rightarrow> string" where
  "markdownToHTML text =
     (if text = [] then []
      else
        let lines = split_lines text;
            result = fst (closeCurrentList (foldl renderLine ([], None, []) lines));
            joined = concat (addBreaks None (filter (\<lambda>line. trim line \<noteq> []) result)) in
        if joined \<noteq> [] \<and> \<not> str_includes joined ''<ol>'' \<and> \<not> str_includes joined ''<ul>''
        then ''<p>'' @ joined @ ''</p>''
        else joined)"

text \<open>
  Markup and the text it shows. \<open>markup out shown\<close> holds when \<open>out\<close> is made of the tags
  that the renderer writes, of the four character references, and of characters other than
  \<open>&\<close>, \<open><\<close> and \<open>>\<close>; \<open>shown\<close> is the text of \<open>out\<close>: the tags left out and the
  references replaced by their characters.
\<close>

definition RENDERER_TAGS :: "string list" where
  "RENDERER_TAGS = [''<ol>'', ''</ol>'', ''<ul>'', ''</ul>'', ''<li>'', ''</li>'',
                    ''<strong>'', ''</strong>'', ''<p>'', ''</p>'', ''<br>'']"

definition isSpecial :: "char \<Rightarrow> bool" where
  "isSpecial c = (c = CHR ''&'' \<or> c = CHR ''<'' \<or> c = CHR ''>'')"

inductive markup :: "string \<Rightarrow> string \<Rightarrow> bool" where
  markup_Nil: "markup [] []"
| markup_plain: "\<not> isSpecial c \<Longrightarrow> markup out shown \<Longrightarrow> markup (c # out) (c # shown)"
| markup_amp: "markup out shown \<Longrightarrow> markup (''&amp;'' @ out) (CHR ''&'' # shown)"
| markup_lt: "markup out shown \<Longrightarrow> markup (''&lt;'' @ out) (CHR ''<'' # shown)"
| markup_gt: "markup out shown \<Longrightarrow> markup (''&gt;'' @ out) (CHR ''>'' # shown)"
| markup_nbsp: "markup out shown \<Longrightarrow> markup (''&nbsp;'' @ out) (CHR 0xA0 # shown)"
| markup_tag: "tag \<in> set RENDERER_TAGS \<Longrightarrow> markup out shown \<Longrightarrow> markup (tag @ out) shown"

text \<open>
  \<open>renders out src\<close>: \<open>out\<close> is markup, and the characters \<open>&\<close>, \<open><\<close> and \<open>>\<close> of the
  text it shows are those of the source text \<open>src\<close>, in the same order.
\<close>

definition renders :: "string \<Rightarrow> string \<Rightarrow> bool" where
  "renders out src =
     (\<exists>shown. markup out shown \<and> filter isSpecial shown = filter isSpecial src)"

text \<open>
  The invariant of the rendering loop for the source text \<open>src\<close> read so far: the finished
  blocks in \<open>result\<close> and the open list items render pieces of text whose characters \<open>&\<close>,
  \<open><\<close> and \<open>>\<close> are together those of \<open>src\<close>; items are open only inside a list, and
  a list is an \<open>ol\<close> or a \<open>ul\<close>.
\<close>

definition render_inv :: "render_state \<Rightarrow> string \<Rightarrow> bool" where
  "render_inv st src =
     (case st of (result, currentList, listItems) \<Rightarrow>
        (\<exists>ss s2. list_all2 renders result ss \<and> renders (concat listItems) s2 \<and>
                 filter isSpecial (concat ss @ s2) = filter isSpecial src) \<and>
        (currentList = None \<longrightarrow> listItems = []) \<and>
        (currentList = None \<or> currentList = Some ''ol'' \<or> currentList = Some ''ul''))"

section \<open>The conversation store (client)\<close>

text \<open>
  What the browser gives to the store: \<^verbatim>\<open>JSON.stringify\<close>, \<^verbatim>\<open>JSON.parse\<close> (\<open>None\<close>
  for a \<open>SyntaxError\<close>), and whether local storage accepts a content (\<open>fits\<close>; a write
  that does not fit throws and leaves the storage as it was).
\<close>

record browser =
  stringify :: "json \<Rightarrow> string"
  parse :: "string \<Rightarrow> json option"
  fits :: "(string \<rightharpoonup> string) \<Rightarrow> bool"

text \<open>The widget: its history and the local storage of the browser.\<close>

record chatbot =
  conversationHistory :: json
  localStorage :: "string \<rightharpoonup> string"

definition storageKey :: string where
  "storageKey = ''linkwave_chatbot_history''"

definition storageTimestampKey :: string where
  "storageTimestampKey = ''linkwave_chatbot_timestamp''"

definition historyExpiryDays :: rat where
  "historyExpiryDays = 30"

text \<open>\<^verbatim>\<open>localStorage.setItem(k, v)\<close>: the new storage, \<open>None\<close> when it throws.\<close>

definition setItem :: "browser \<Rightarrow> (string \<rightharpoonup> string) \<Rightarrow> string \<Rightarrow> string \<Rightarrow> (string \<rightharpoonup> string) option" where
  "setItem b store k v = (if fits b (store(k \<mapsto> v)) then Some (store(k \<mapsto> v)) else None)"

definition removeItem :: "(string \<rightharpoonup> string) \<Rightarrow> string \<Rightarrow> (string \<rightharpoonup> string)" where
  "removeItem store k = store(k := None)"

text \<open>The value of a decimal digit.\<close>

definition digitValue :: "char \<Rightarrow> nat" where
  "digitValue c = length (takeWhile (\<lambda>d. d \<noteq> c) ''0123456789'')"

text \<open>
  \<^verbatim>\<open>parseInt(s, 10)\<close>: white space, an optional sign and the digits up to the first
  other character; \<open>None\<close> is \<open>NaN\<close>, the result without digits.
\<close>

definition parseInt :: "string \<Rightarrow> int option" where
  "parseInt s =
     (let t = dropWhile isSpace s;
          negative = prefix ''-'' t;
          u = (if prefix ''-'' t \<or> prefix ''+'' t then drop 1 t else t);
          digits = takeWhile isDigit u;
          n = foldl (\<lambda>a d. 10 * a + int (digitValue d)) 0 digits in
      if digits = [] then None else Some (if negative then - n else n))"

definition clearHistory :: "chatbot \<Rightarrow> chatbot" where
  "clearHistory c =
     c\<lparr>localStorage := removeItem (removeItem (localStorage c) storageKey) storageTimestampKey,
       conversationHistory := JArr []\<rparr>"

text \<open>\<open>saveHistory\<close> at the time \<open>now\<close> (\<^verbatim>\<open>Date.now()\<close>, in milliseconds). A write that
  throws ends the \<^verbatim>\<open>try\<close> block; what was written before stays.\<close>

definition saveHistory :: "browser \<Rightarrow> nat \<Rightarrow> chatbot \<Rightarrow> chatbot" where
  "saveHistory b now c =
     (case setItem b (localStorage c) storageKey (stringify b (conversationHistory c)) of
        None \<Rightarrow> c
      | Some store1 \<Rightarrow>
          (case setItem b store1 storageTimestampKey (showNat now) of
             None \<Rightarrow> c\<lparr>localStorage := store1\<rparr>
           | Some store2 \<Rightarrow> c\<lparr>localStorage := store2\<rparr>))"

text \<open>A string is truthy when it is there and not empty.\<close>

definition present :: "string option \<Rightarrow> bool" where
  "present v = (case v of None \<Rightarrow> False | Some s \<Rightarrow> s \<noteq> [])"

text \<open>
  \<open>loadHistory\<close> at the time \<open>now\<close>. With a timestamp that is not a number every
  comparison is false and the history is cleared; a text that does not parse throws, and
  the \<^verbatim>\<open>catch\<close> block clears the history.
\<close>

definition loadHistory :: "browser \<Rightarrow> nat \<Rightarrow> chatbot \<Rightarrow> chatbot" where
  "loadHistory b now c =
     (let stored = localStorage c storageKey;
          timestamp = localStorage c storageTimestampKey in
      if present stored \<and> present timestamp then
        (case parseInt (the timestamp) of
           None \<Rightarrow> clearHistory c
         | Some savedTime \<Rightarrow>
             let daysSince = (of_int (int now - savedTime) :: rat) / (1000 * 60 * 60 * 24) in
             if daysSince < historyExpiryDays then
               (case parse b (the stored) of
                  Some history \<Rightarrow> c\<lparr>conversationHistory := history\<rparr>
                | None \<Rightarrow> clearHistory c)
             else clearHistory c)
      else c)"

text \<open>A new page: the constructor starts with an empty history on the storage that the
  browser kept.\<close>

definition newChatbot :: "(string \<rightharpoonup> string) \<Rightarrow> chatbot" where
  "newChatbot store = \<lparr>conversationHistory = JArr [], localStorage = store\<rparr>"

text \<open>Thirty days in milliseconds.\<close>

definition expiryMillis :: int where
  "expiryMillis = 30 * 24 * 60 * 60 * 1000"

text \<open>
  An example browser for the store: a JSON writer and reader for the values of the model,
  with integers as the only numbers, and a storage that accepts every content. The reader
  counts down \<open>fuel\<close>, one for each value, element and member it enters.
\<close>

definition showInt :: "int \<Rightarrow> string" where
  "showInt n = (if n < 0 then CHR ''-'' # showNat (nat (- n)) else showNat (nat n))"

definition hexDigit :: "nat \<Rightarrow> char" where
  "hexDigit d = ''0123456789abcdef'' ! d"

definition JSON_escape :: "char \<Rightarrow> string" where
  "JSON_escape c =
     (if c = CHR 0x22 then [CHR 0x5C, CHR 0x22]
      else if c = CHR 0x5C then [CHR 0x5C, CHR 0x5C]
      else if c = CHR 0x08 then [CHR 0x5C, CHR ''b'']
      else if c = CHR 0x0C then [CHR 0x5C, CHR ''f'']
      else if c = CHR 0x0A then [CHR 0x5C, CHR ''n'']
      else if c = CHR 0x0D then [CHR 0x5C, CHR ''r'']
      else if c = CHR 0x09 then [CHR 0x5C, CHR ''t'']
      else if (of_char c :: nat) < 32 then
        [CHR 0x5C, CHR ''u'', CHR ''0'', CHR ''0'',
         hexDigit ((of_char c :: nat) div 16), hexDigit ((of_char c :: nat) mod 16)]
      else [c])"

definition JSON_quote :: "string \<Rightarrow> string" where
  "JSON_quote s = CHR 0x22 # concat (map JSON_escape s) @ [CHR 0x22]"

fun commas :: "string list \<Rightarrow> string" where
  "commas [] = []"
| "commas [x] = x"
| "commas (x # xs) = x @ CHR '','' # commas xs"

fun JSON_stringify :: "json \<Rightarrow> string" where
  "JSON_stringify JNull = ''null''"
| "JSON_stringify (JBool b) = (if b then ''true'' else ''false'')"
| "JSON_stringify (JNum n) = showInt n"
| "JSON_stringify (JStr s) = JSON_quote s"
| "JSON_stringify (JArr xs) = ''['' @ commas (map JSON_stringify xs) @ '']''"
| "JSON_stringify (JObj kvs) =
     ''{'' @ commas (map (\<lambda>kv. JSON_quote (fst kv) @ '':'' @ JSON_stringify (snd kv)) kvs) @ ''}''"

definition skip_ws :: "string \<Rightarrow> string" where
  "skip_ws s = dropWhile (\<lambda>c. c \<in> set [CHR '' '', CHR 0x09, CHR 0x0A, CHR 0x0D]) s"

definition hexValue :: "char \<Rightarrow> nat option" where
  "hexValue c =
     (let n = length (takeWhile (\<lambda>d. d \<noteq> c) ''0123456789abcdef'');
          m = length (takeWhile (\<lambda>d. d \<noteq> c) ''0123456789ABCDEF'') in
      if n < 16 then Some n else if m < 16 then Some m else None)"

definition simple_escape :: "char \<Rightarrow> char option" where
  "simple_escape e =
     map_of [(CHR 0x22, CHR 0x22), (CHR 0x5C, CHR 0x5C), (CHR ''/'', CHR ''/''),
             (CHR ''b'', CHR 0x08), (CHR ''f'', CHR 0x0C), (CHR ''n'', CHR 0x0A),
             (CHR ''r'', CHR 0x0D), (CHR ''t'', CHR 0x09)] e"

definition with_char :: "char \<Rightarrow> (string \<times> string) option \<Rightarrow> (string \<times> string) option" where
  "with_char c res = (case res of None \<Rightarrow> None | Some (s, r) \<Rightarrow> Some (c # s, r))"

text \<open>The characters of a string behind its opening quote, and the text behind its closing
  quote. A character reference above U+00FF is outside the characters of the model.\<close>

fun parse_string_body :: "string \<Rightarrow> (string \<times> string) option" where
  "parse_string_body [] = None"
| "parse_string_body [c] = (if c = CHR 0x22 then Some ([], []) else None)"
| "parse_string_body (c # e # cs) =
     (if c = CHR 0x22 then Some ([], e # cs)
      else if c = CHR 0x5C then
        (if e = CHR ''u'' then
           (case cs of
              h1 # h2 # h3 # h4 # cs' \<Rightarrow>
                (case (hexValue h1, hexValue h2, hexValue h3, hexValue h4) of
                   (Some a, Some b, Some c', Some d) \<Rightarrow>
                     if a = 0 \<and> b = 0
                     then with_char (char_of (16 * c' + d)) (parse_string_body cs')
                     else None
                 | _ \<Rightarrow> None)
            | _ \<Rightarrow> None)
         else
           (case simple_escape e of
              Some d \<Rightarrow> with_char d (parse_string_body cs)
            | None \<Rightarrow> None))
      else if (of_char c :: nat) < 32 then None
      else with_char c (parse_string_body (e # cs)))"

fun parse_value :: "nat \<Rightarrow> string \<Rightarrow> (json \<times> string) option"
  and parse_elements :: "nat \<Rightarrow> string \<Rightarrow> (json list \<times> string) option"
  and parse_members :: "nat \<Rightarrow> string \<Rightarrow> ((string \<times> json) list \<times> string) option" where
  "parse_value 0 s = None"
| "parse_value (Suc fuel) s =
     (let t = skip_ws s in
      if prefix ''null'' t then Some (JNull, drop 4 t)
      else if prefix ''true'' t then Some (JBool True, drop 4 t)
      else if prefix ''false'' t then Some (JBool False, drop 5 t)
      else if prefix [CHR 0x22] t then
        (case parse_string_body (drop 1 t) of
           None \<Rightarrow> None
         | Some (str, r) \<Rightarrow> Some (JStr str, r))
      else if prefix ''['' t then
        (if prefix '']'' (skip_ws (drop 1 t)) then Some (JArr [], drop 1 (skip_ws (drop 1 t)))
         else (case parse_elements fuel (drop 1 t) of
                 None \<Rightarrow> None
               | Some (xs, r) \<Rightarrow> Some (JArr xs, r)))
      else if prefix ''{'' t then
        (if prefix ''}'' (skip_ws (drop 1 t)) then Some (JObj [], drop 1 (skip_ws (drop 1 t)))
         else (case parse_members fuel (drop 1 t) of
                 None \<Rightarrow> None
               | Some (kvs, r) \<Rightarrow> Some (JObj kvs, r)))
      else
        (case parseInt (takeWhile (\<lambda>c. c = CHR ''-'' \<or> isDigit c) t) of
           None \<Rightarrow> None
         | Some n \<Rightarrow> Some (JNum n, dropWhile (\<lambda>c. c = CHR ''-'' \<or> isDigit c) t)))"
| "parse_elements 0 s = None"
| "parse_elements (Suc fuel) s =
     (case parse_value fuel s of
        None \<Rightarrow> None
      | Some (v, r) \<Rightarrow>
          if prefix '','' (skip_ws r) then
            (case parse_elements fuel (drop 1 (skip_ws r)) of
               None \<Rightarrow> None
             | Some (vs, r') \<Rightarrow> Some (v # vs, r'))
          else if prefix '']'' (skip_ws r) then Some ([v], drop 1 (skip_ws r))
          else None)"
| "parse_members 0 s = None"
| "parse_members (Suc fuel) s =
     (if prefix [CHR 0x22] (skip_ws s) then
        (case parse_string_body (drop 1 (skip_ws s)) of
           None \<Rightarrow> None
         | Some (k, r) \<Rightarrow>
             if prefix '':'' (skip_ws r) then
               (case parse_value fuel (drop 1 (skip_ws r)) of
                  None \<Rightarrow> None
                | Some (v, r1) \<Rightarrow>
                    if prefix '','' (skip_ws r1) then
                      (case parse_members fuel (drop 1 (skip_ws r1)) of
                         None \<Rightarrow> None
                       | Some (kvs, r2) \<Rightarrow> Some ((k, v) # kvs, r2))
                    else if prefix ''}'' (skip_ws r1) then Some ([(k, v)], drop 1 (skip_ws r1))
                    else None)
             else None)
      else None)"

definition JSON_parse :: "string \<Rightarrow> json option" where
  "JSON_parse s =
     (case parse_value (2 * length s + 2) s of
        None \<Rightarrow> None
      | Some (v, r) \<Rightarrow> if skip_ws r = [] then Some v else None)"

definition example_browser :: browser where
  "example_browser = \<lparr>stringify = JSON_stringify, parse = JSON_parse, fits = (\<lambda>store. True)\<rparr>"

definition example_history :: json where
  "example_history =
     JArr [JObj [(''role'', JStr ''user''), (''content'', JStr ''What is DAS?'')],
           JObj [(''role'', JStr ''assistant''),
                 (''content'', JStr (''A distributed antenna system.'' @ [CHR 0x0A] @
                    ''1. In-building '' @ [CHR 0x22] @ ''coverage'' @ [CHR 0x22]))]]"


section \<open>Basic facts\<close>

lemma includes_iff: "str_includes s k \<longleftrightarrow> (\<exists>a b. s = a @ k @ b)"
proof (induction s)
  case Nil
  then show ?case by auto
next
  case (Cons c cs)
  show ?case
  proof
    assume "str_includes (c # cs) k"
    then consider "prefix k (c # cs)" | "str_includes cs k" by auto
    then show "\<exists>a b. c # cs = a @ k @ b"
    proof cases
      case 1
      then obtain b where "c # cs = k @ b" by (auto simp: prefix_def)
      then have "c # cs = [] @ k @ b" by simp
      then show ?thesis by blast
    next
      case 2
      with Cons.IH obtain a b where "cs = a @ k @ b" by blast
      then have "c # cs = (c # a) @ k @ b" by simp
      then show ?thesis by blast
    qed
  next
    assume "\<exists>a b. c # cs = a @ k @ b"
    then obtain a b where ab: "c # cs = a @ k @ b" by blast
    show "str_includes (c # cs) k"
    proof (cases a)
      case Nil
      with ab have "prefix k (c # cs)" by (simp add: prefix_def)
      then show ?thesis by simp
    next
      case (Cons a0 as)
      with ab have "cs = as @ k @ b" by simp
      with Cons.IH have "str_includes cs k" by blast
      then show ?thesis by simp
    qed
  qed
qed

lemma slice_last_length: "length (slice_last n xs) = min n (length xs)"
  by (simp add: slice_last_def)

lemma slice_last_all: "length xs \<le> n \<Longrightarrow> slice_last n xs = xs"
  by (simp add: slice_last_def)

lemma slice_last_append: "length ys = n \<Longrightarrow> slice_last n (xs @ ys) = ys"
  by (simp add: slice_last_def)

lemma slice_last_3_cases:
  "3 \<le> length xs \<Longrightarrow> \<exists>earlier a b c. xs = earlier @ [a, b, c]"
proof -
  assume len: "3 \<le> length xs"
  define tl3 where "tl3 = drop (length xs - 3) xs"
  have l3: "length tl3 = 3" using len by (simp add: tl3_def)
  then obtain a b c where abc: "tl3 = [a, b, c]"
    by (auto simp: length_Suc_conv numeral_3_eq_3)
  have "xs = take (length xs - 3) xs @ tl3" by (simp add: tl3_def)
  with abc show ?thesis by metis
qed

section \<open>The repeated-question detector\<close>

text \<open>
  C3. \<open>isRepeated message history\<close> holds exactly when the user-role messages of the
  history end in three messages \<open>a\<close>, \<open>b\<close>, \<open>c\<close> (so there are at least three of them)
  and each of the three, lower-cased and trimmed, equals the lower-cased and trimmed current
  message. With fewer than three user-role messages it is false.
\<close>

theorem isRepeated_iff_last_three:
  "(isRepeated message history \<longleftrightarrow>
      (\<exists>earlier a b c.
         filter (\<lambda>m. role m = ''user'') history = earlier @ [a, b, c] \<and>
         trim (toLowerCase (content a)) = trim (toLowerCase message) \<and>
         trim (toLowerCase (content b)) = trim (toLowerCase message) \<and>
         trim (toLowerCase (content c)) = trim (toLowerCase message))) \<and>
   (length (filter (\<lambda>m. role m = ''user'') history) < 3 \<longrightarrow> \<not> isRepeated message history)"
proof -
  let ?us = "filter (\<lambda>m. role m = ''user'') history"
  have short: "length ?us < 3 \<Longrightarrow> \<not> isRepeated message history"
    by (simp add: isRepeated_def Let_def slice_last_length)
  have "isRepeated message history \<longleftrightarrow>
      (\<exists>earlier a b c. ?us = earlier @ [a, b, c] \<and>
         trim (toLowerCase (content a)) = trim (toLowerCase message) \<and>
         trim (toLowerCase (content b)) = trim (toLowerCase message) \<and>
         trim (toLowerCase (content c)) = trim (toLowerCase message))"
  proof (cases "3 \<le> length ?us")
    case True
    then obtain earlier a b c where us: "?us = earlier @ [a, b, c]"
      using slice_last_3_cases by blast
    have sl: "slice_last 3 ?us = [a, b, c]"
      unfolding us by (rule slice_last_append) simp
    have "isRepeated message history \<longleftrightarrow>
       trim (toLowerCase (content a)) = trim (toLowerCase message) \<and>
       trim (toLowerCase (content b)) = trim (toLowerCase message) \<and>
       trim (toLowerCase (content c)) = trim (toLowerCase message)"
      unfolding isRepeated_def Let_def sl by (simp add: or_empty_def)
    then show ?thesis using us by auto
  next
    case False
    then have "length ?us < 3" by simp
    moreover from this have "\<not> isRepeated message history" by (rule short)
    ultimately show ?thesis by auto
  qed
  with short show ?thesis by blast
qed

theorem isRepeated_iff_last_three_witness:
  "isRepeated ''What is DAS? ''
     [\<lparr>role = ''user'', content = ''what is das?''\<rparr>,
      \<lparr>role = ''assistant'', content = ''A distributed antenna system.''\<rparr>,
      \<lparr>role = ''user'', content = '' WHAT IS DAS?''\<rparr>,
      \<lparr>role = ''user'', content = ''What is das?''\<rparr>] \<and>
   \<not> isRepeated ''hi'' [\<lparr>role = ''user'', content = ''hi''\<rparr>, \<lparr>role = ''user'', content = ''hi''\<rparr>]"
proof -
  let ?a = "\<lparr>role = ''user'', content = ''what is das?''\<rparr>"
  let ?x = "\<lparr>role = ''assistant'', content = ''A distributed antenna system.''\<rparr>"
  let ?b = "\<lparr>role = ''user'', content = '' WHAT IS DAS?''\<rparr>"
  let ?c = "\<lparr>role = ''user'', content = ''What is das?''\<rparr>"
  have norm: "trim (toLowerCase ''What is DAS? '') = ''what is das?''"
    "trim (toLowerCase (content ?a)) = ''what is das?''"
    "trim (toLowerCase (content ?b)) = ''what is das?''"
    "trim (toLowerCase (content ?c)) = ''what is das?''"
    by (simp_all add: trim_def toLowerCase_def lowerChar_def upperChars_def lowerChars_def
        isSpace_def whitespaceChars_def)
  have "filter (\<lambda>m. role m = ''user'') [?a, ?x, ?b, ?c] = [] @ [?a, ?b, ?c]"
    by simp
  with norm have "\<exists>earlier a b c.
         filter (\<lambda>m. role m = ''user'') [?a, ?x, ?b, ?c] = earlier @ [a, b, c] \<and>
         trim (toLowerCase (content a)) = trim (toLowerCase ''What is DAS? '') \<and>
         trim (toLowerCase (content b)) = trim (toLowerCase ''What is DAS? '') \<and>
         trim (toLowerCase (content c)) = trim (toLowerCase ''What is DAS? '')"
    by metis
  then have 1: "isRepeated ''What is DAS? '' [?a, ?x, ?b, ?c]"
    using isRepeated_iff_last_three [where message = "''What is DAS? ''" and history = "[?a, ?x, ?b, ?c]"]
    by blast
  have 2: "\<not> isRepeated ''hi'' [\<lparr>role = ''user'', content = ''hi''\<rparr>, \<lparr>role = ''user'', content = ''hi''\<rparr>]"
    using isRepeated_iff_last_three [where message = "''hi''"
        and history = "[\<lparr>role = ''user'', content = ''hi''\<rparr>, \<lparr>role = ''user'', content = ''hi''\<rparr>]"]
    by simp
  from 1 2 show ?thesis by blast
qed

section \<open>The consultation-intent detector\<close>

lemma keyword_hit_iff:
  "list_ex (\<lambda>k. str_includes s k) ks \<longleftrightarrow> (\<exists>k \<in> set ks. \<exists>a b. s = a @ k @ b)"
  by (simp add: list_ex_iff includes_iff)

text \<open>
  C4 (as the code has it). \<open>detectConsultationIntent message history\<close> holds exactly when
  the lower-cased current message contains a consultation keyword, or one of the last three
  entries of the history has the role \<open>user\<close> and its lower-cased content contains a
  consultation keyword. The window is the last three entries of the history, of which only
  the user-role ones are inspected; it is not the last three user-role messages.
\<close>

theorem detectConsultationIntent_iff_window:
  "detectConsultationIntent message history \<longleftrightarrow>
     (\<exists>k \<in> set CONSULTATION_KEYWORDS. \<exists>a b. toLowerCase message = a @ k @ b) \<or>
     (\<exists>m \<in> set (slice_last 3 history). role m = ''user'' \<and>
        (\<exists>k \<in> set CONSULTATION_KEYWORDS. \<exists>a b. toLowerCase (content m) = a @ k @ b))"
proof -
  let ?hit = "\<lambda>s. \<exists>k \<in> set CONSULTATION_KEYWORDS. \<exists>a b. s = a @ k @ b"
  have cur: "list_ex (\<lambda>k. str_includes (toLowerCase message) k) CONSULTATION_KEYWORDS
      \<longleftrightarrow> ?hit (toLowerCase message)"
    by (rule keyword_hit_iff)
  have "list_ex (\<lambda>m. list_ex (\<lambda>k. str_includes (toLowerCase (content m)) k)
            CONSULTATION_KEYWORDS) (filter (\<lambda>m. role m = ''user'') (slice_last 3 history))
      \<longleftrightarrow> (\<exists>m \<in> set (filter (\<lambda>m. role m = ''user'') (slice_last 3 history)).
             ?hit (toLowerCase (content m)))"
    unfolding keyword_hit_iff by (simp only: list_ex_iff)
  also have "\<dots> \<longleftrightarrow> (\<exists>m \<in> set (slice_last 3 history). role m = ''user'' \<and>
             ?hit (toLowerCase (content m)))"
    by auto
  finally have win: "list_ex (\<lambda>m. list_ex (\<lambda>k. str_includes (toLowerCase (content m)) k)
            CONSULTATION_KEYWORDS) (filter (\<lambda>m. role m = ''user'') (slice_last 3 history))
      \<longleftrightarrow> (\<exists>m \<in> set (slice_last 3 history). role m = ''user'' \<and>
             ?hit (toLowerCase (content m)))" .
  have "detectConsultationIntent message history \<longleftrightarrow>
      list_ex (\<lambda>k. str_includes (toLowerCase message) k) CONSULTATION_KEYWORDS \<or>
      list_ex (\<lambda>m. list_ex (\<lambda>k. str_includes (toLowerCase (content m)) k)
            CONSULTATION_KEYWORDS) (filter (\<lambda>m. role m = ''user'') (slice_last 3 history))"
    by (simp add: detectConsultationIntent_def Let_def or_empty_def)
  then show ?thesis unfolding cur win .
qed

theorem detectConsultationIntent_iff_window_witness:
  "detectConsultationIntent ''hello''
     [\<lparr>role = ''user'', content = ''We need a quote''\<rparr>,
      \<lparr>role = ''assistant'', content = ''Sure.''\<rparr>,
      \<lparr>role = ''user'', content = ''hello''\<rparr>]"
proof -
  let ?q = "\<lparr>role = ''user'', content = ''We need a quote''\<rparr>"
  let ?h = "[?q, \<lparr>role = ''assistant'', content = ''Sure.''\<rparr>,
             \<lparr>role = ''user'', content = ''hello''\<rparr>]"
  have "toLowerCase (content ?q) = ''we need a '' @ ''quote'' @ []"
    by (simp add: toLowerCase_def lowerChar_def upperChars_def lowerChars_def)
  then have low: "\<exists>a b. toLowerCase (content ?q) = a @ ''quote'' @ b"
    by blast
  have mem: "?q \<in> set (slice_last 3 ?h)"
    by (simp add: slice_last_def)
  have kw: "''quote'' \<in> set CONSULTATION_KEYWORDS"
    by (simp add: CONSULTATION_KEYWORDS_def)
  have "\<exists>m \<in> set (slice_last 3 ?h). role m = ''user'' \<and>
        (\<exists>k \<in> set CONSULTATION_KEYWORDS. \<exists>a b. toLowerCase (content m) = a @ k @ b)"
    using low mem kw by (intro bexI [of _ ?q] conjI bexI [of _ "''quote''"]) simp_all
  then show ?thesis
    using detectConsultationIntent_iff_window [of "''hello''" ?h] by blast
qed

text \<open>
  The detector of the specification's wording is another function: with a keyword in a user message that is
  among the last three user-role messages but not among the last three entries, the
  specification's detector fires and the code's does not.
\<close>

theorem detectConsultationIntent_counterexample:
  "detectConsultationIntent_spec ''hello''
     [\<lparr>role = ''user'', content = ''pricing''\<rparr>,
      \<lparr>role = ''assistant'', content = ''ok''\<rparr>,
      \<lparr>role = ''user'', content = ''hm''\<rparr>,
      \<lparr>role = ''assistant'', content = ''ok''\<rparr>] \<and>
   \<not> detectConsultationIntent ''hello''
     [\<lparr>role = ''user'', content = ''pricing''\<rparr>,
      \<lparr>role = ''assistant'', content = ''ok''\<rparr>,
      \<lparr>role = ''user'', content = ''hm''\<rparr>,
      \<lparr>role = ''assistant'', content = ''ok''\<rparr>]"
  by code_simp

section \<open>Trimming\<close>

lemma last_dropWhile: "dropWhile P xs \<noteq> [] \<Longrightarrow> last (dropWhile P xs) = last xs"
  by (induction xs) auto

lemma trim_Nil [simp]: "trim [] = []"
  by (simp add: trim_def)

lemma trim_id:
  assumes "s \<noteq> []" "\<not> isSpace (hd s)" "\<not> isSpace (last s)"
  shows "trim s = s"
proof -
  have 1: "dropWhile isSpace s = s"
    using assms by (simp add: dropWhile_eq_self_iff)
  have "hd (rev s) = last s" using assms(1) by (simp add: hd_rev)
  then have 2: "dropWhile isSpace (rev s) = rev s"
    using assms by (simp add: dropWhile_eq_self_iff)
  show ?thesis by (simp add: trim_def 1 2)
qed

lemma trim_ends:
  assumes "trim s \<noteq> []"
  shows "\<not> isSpace (hd (trim s))" and "\<not> isSpace (last (trim s))"
proof -
  define d where "d = dropWhile isSpace s"
  define e where "e = dropWhile isSpace (rev d)"
  have t: "trim s = rev e" by (simp add: trim_def d_def e_def)
  with assms have e: "e \<noteq> []" by simp
  then have d: "d \<noteq> []" by (auto simp: e_def)
  have "\<not> isSpace (hd e)" using e unfolding e_def by (rule hd_dropWhile)
  then show "\<not> isSpace (last (trim s))" using e by (simp add: t last_rev)
  have "last e = last (rev d)" using e unfolding e_def by (rule last_dropWhile)
  also have "\<dots> = hd d" using d by (simp add: last_rev)
  finally have "hd (trim s) = hd d" using e by (simp add: t hd_rev)
  moreover have "\<not> isSpace (hd d)" using d unfolding d_def by (rule hd_dropWhile)
  ultimately show "\<not> isSpace (hd (trim s))" by simp
qed

lemma trim_idem: "trim (trim s) = trim s"
proof (cases "trim s = []")
  case True
  then show ?thesis by simp
next
  case False
  then show ?thesis by (intro trim_id trim_ends)
qed

lemma toLowerCase_append: "toLowerCase (a @ b) = toLowerCase a @ toLowerCase b"
  by (simp add: toLowerCase_def)

lemma str_includes_appendI: "str_includes s k \<Longrightarrow> str_includes (a @ s @ b) k"
proof -
  assume "str_includes s k"
  then obtain x y where "s = x @ k @ y" by (auto simp: includes_iff)
  then have "a @ s @ b = (a @ x) @ k @ (y @ b)" by simp
  then show ?thesis unfolding includes_iff by blast
qed

section \<open>The call-to-action appender\<close>

lemma CTA_mentions: "str_includes (toLowerCase CTA) ''book consultation''"
  by code_simp

lemma CTA_ends: "CTA \<noteq> []" "\<not> isSpace (last CTA)"
  by code_simp+

lemma mentions_with_CTA: "alreadyMentionsButton (a @ CTA)"
proof -
  have "str_includes (toLowerCase a @ toLowerCase CTA @ []) ''book consultation''"
    using CTA_mentions by (rule str_includes_appendI)
  then have "str_includes (toLowerCase (a @ CTA)) ''book consultation''"
    by (simp add: toLowerCase_append)
  moreover have "''book consultation'' \<in> set BUTTON_PHRASES"
    by (simp add: BUTTON_PHRASES_def)
  ultimately show ?thesis
    unfolding alreadyMentionsButton_def list_ex_iff by blast
qed

lemma trim_with_CTA:
  assumes "a \<noteq> []" "\<not> isSpace (hd a)"
  shows "trim (a @ CTA) = a @ CTA"
proof (rule trim_id)
  show "a @ CTA \<noteq> []" using assms by simp
  show "\<not> isSpace (hd (a @ CTA))" using assms by simp
  show "\<not> isSpace (last (a @ CTA))" using CTA_ends by simp
qed

lemma appendConsultationCTA_fixed:
  assumes "r \<noteq> []" "trim r = r" "alreadyMentionsButton r"
  shows "appendConsultationCTA r = r"
  using assms by (simp add: appendConsultationCTA_def Let_def or_empty_def)

text \<open>
  C10. For every string \<open>t\<close>, empty or not, the result of \<open>appendConsultationCTA\<close> is not
  empty, it matches the button/consultation phrase pattern, and applying the function to it
  again changes nothing: no second call-to-action sentence is appended.
\<close>

theorem appendConsultationCTA_idempotent:
  "appendConsultationCTA t \<noteq> [] \<and>
   alreadyMentionsButton (appendConsultationCTA t) \<and>
   appendConsultationCTA (appendConsultationCTA t) = appendConsultationCTA t"
proof -
  define base where "base = trim (or_empty t)"
  have base_trim: "trim base = base"
    by (simp add: base_def trim_idem)
  consider (empty) "base = []"
    | (mentions) "base \<noteq> []" "alreadyMentionsButton base"
    | (appended) "base \<noteq> []" "\<not> alreadyMentionsButton base"
    by blast
  then have "appendConsultationCTA t \<noteq> [] \<and>
      trim (appendConsultationCTA t) = appendConsultationCTA t \<and>
      alreadyMentionsButton (appendConsultationCTA t)"
  proof cases
    case empty
    then have r: "appendConsultationCTA t = ''Thanks for your interest. '' @ CTA"
      by (simp add: appendConsultationCTA_def Let_def base_def)
    have "trim (''Thanks for your interest. '' @ CTA) = ''Thanks for your interest. '' @ CTA"
      by (rule trim_with_CTA) (simp_all add: isSpace_def whitespaceChars_def)
    then show ?thesis
      unfolding r using mentions_with_CTA [of "''Thanks for your interest. ''"] by simp
  next
    case mentions
    then have r: "appendConsultationCTA t = base"
      by (simp add: appendConsultationCTA_def Let_def base_def)
    show ?thesis unfolding r using mentions base_trim by simp
  next
    case appended
    then have r: "appendConsultationCTA t = (base @ [CHR 0x0A, CHR 0x0A]) @ CTA"
      by (simp add: appendConsultationCTA_def Let_def base_def)
    have "\<not> isSpace (hd base)"
      using trim_ends(1) [of base] appended(1) base_trim by simp
    then have "trim ((base @ [CHR 0x0A, CHR 0x0A]) @ CTA) = (base @ [CHR 0x0A, CHR 0x0A]) @ CTA"
      using appended(1) by (intro trim_with_CTA) simp_all
    then show ?thesis
      unfolding r using mentions_with_CTA [of "base @ [CHR 0x0A, CHR 0x0A]"] by simp
  qed
  then show ?thesis
    using appendConsultationCTA_fixed [of "appendConsultationCTA t"] by simp
qed

theorem appendConsultationCTA_idempotent_witness:
  "appendConsultationCTA (appendConsultationCTA ''We can help with pricing.'') =
     ''We can help with pricing.'' @ [CHR 0x0A, CHR 0x0A] @ CTA \<and>
   appendConsultationCTA (appendConsultationCTA []) = ''Thanks for your interest. '' @ CTA"
proof -
  have 1: "appendConsultationCTA ''We can help with pricing.'' =
     ''We can help with pricing.'' @ [CHR 0x0A, CHR 0x0A] @ CTA"
    by code_simp
  have 2: "appendConsultationCTA [] = ''Thanks for your interest. '' @ CTA"
    by code_simp
  show ?thesis
    using appendConsultationCTA_idempotent [of "''We can help with pricing.''"]
      appendConsultationCTA_idempotent [of "[]"] 1 2 by simp
qed

section \<open>Lines\<close>

lemma split_lines_not_Nil [simp]: "split_lines s \<noteq> []"
  by (induction s) (auto split: list.splits)

lemma join_lines_Cons: "ls \<noteq> [] \<Longrightarrow> join_lines (l # ls) = l @ CHR 0x0A # join_lines ls"
  by (cases ls) simp_all

lemma join_split_lines: "join_lines (split_lines s) = s"
proof (induction s)
  case Nil
  show ?case by simp
next
  case (Cons c cs)
  show ?case
  proof (cases "c = CHR 0x0A")
    case True
    with Cons show ?thesis by (simp add: join_lines_Cons)
  next
    case False
    obtain l ls where sp: "split_lines cs = l # ls"
      by (cases "split_lines cs") simp_all
    show ?thesis
    proof (cases ls)
      case Nil
      with Cons sp False show ?thesis by simp
    next
      case (Cons l' ls')
      with Cons.IH sp False show ?thesis by simp
    qed
  qed
qed

lemma split_join_lines:
  "ls \<noteq> [] \<Longrightarrow> \<forall>l \<in> set ls. CHR 0x0A \<notin> set l \<Longrightarrow> split_lines (join_lines ls) = ls"
proof (induction ls rule: join_lines.induct)
  case 1
  then show ?case by simp
next
  case (2 l)
  then have "CHR 0x0A \<notin> set l" by simp
  then show ?case by (induction l) auto
next
  case (3 l v va)
  then have ih: "split_lines (join_lines (v # va)) = v # va" by simp
  from 3 have "CHR 0x0A \<notin> set l" by simp
  then have "split_lines (l @ CHR 0x0A # join_lines (v # va)) = l # split_lines (join_lines (v # va))"
    by (induction l) auto
  with ih show ?case by simp
qed

lemma split_lines_no_newline: "l \<in> set (split_lines s) \<Longrightarrow> CHR 0x0A \<notin> set l"
proof (induction s arbitrary: l)
  case Nil
  then show ?case by simp
next
  case (Cons c cs)
  then show ?case by (auto split: if_splits list.splits)
qed

lemma trim_empty_iff: "trim s = [] \<longleftrightarrow> (\<forall>c \<in> set s. isSpace c)"
proof
  assume "trim s = []"
  then have a: "\<forall>c \<in> set (dropWhile isSpace s). isSpace c"
    by (simp add: trim_def dropWhile_eq_Nil_conv)
  have "dropWhile isSpace s = []"
  proof (rule ccontr)
    assume n: "dropWhile isSpace s \<noteq> []"
    then have "\<not> isSpace (hd (dropWhile isSpace s))" by (rule hd_dropWhile)
    moreover have "hd (dropWhile isSpace s) \<in> set (dropWhile isSpace s)" using n by simp
    ultimately show False using a by blast
  qed
  then show "\<forall>c \<in> set s. isSpace c" by (simp add: dropWhile_eq_Nil_conv)
next
  assume "\<forall>c \<in> set s. isSpace c"
  then have d: "dropWhile isSpace s = []" by (simp add: dropWhile_eq_Nil_conv)
  show "trim s = []" unfolding trim_def d by simp
qed

section \<open>Renumbering of ordered lists\<close>

lemma digit_not_space: "isDigit c \<Longrightarrow> \<not> isSpace c"
  by (auto simp: isDigit_def isSpace_def whitespaceChars_def)

lemma set_drop2: "set (if prefix ''**'' r then drop 2 r else r) \<subseteq> set r"
  by (auto dest: in_set_dropD)

lemma matchNumbered_has_digit:
  assumes "matchNumbered line \<noteq> None"
  shows "\<exists>c \<in> set line. isDigit c"
proof -
  define r1 where "r1 = dropWhile isSpace line"
  define r2 where "r2 = (if prefix ''**'' r1 then drop 2 r1 else r1)"
  from assms have "takeWhile isDigit r2 \<noteq> []"
    unfolding matchNumbered_def Let_def r1_def r2_def by (auto split: if_splits)
  then obtain c where c: "c \<in> set (takeWhile isDigit r2)"
    by (cases "takeWhile isDigit r2") auto
  then have "isDigit c" by (auto dest: set_takeWhileD)
  moreover have "c \<in> set r2" using c by (auto dest: set_takeWhileD)
  then have "c \<in> set r1" using set_drop2 [of r1] unfolding r2_def by blast
  then have "c \<in> set line" unfolding r1_def by (auto dest: set_dropWhileD)
  ultimately show ?thesis by blast
qed

lemma matchNumbered_not_blank: "matchNumbered line \<noteq> None \<Longrightarrow> trim line \<noteq> []"
  using matchNumbered_has_digit [of line] digit_not_space by (auto simp: trim_empty_iff)

lemma item_number_snoc:
  "item_number (before @ [l]) =
     (if matchNumbered l \<noteq> None then Suc (item_number before)
      else if trim l = [] then 1 else item_number before)"
  using matchNumbered_not_blank [of l] by (auto simp: item_number_def)

lemma map_upt_Suc0: "map f [0..<Suc n] = f 0 # map (\<lambda>i. f (Suc i)) [0..<n]"
  by (simp add: upt_conv_Cons map_Suc_upt [symmetric] del: upt_Suc)

lemma fixLines_closed_form:
  "fixLines (item_number before) ls =
     map (\<lambda>i. renumbered (before @ take i ls) (ls ! i)) [0..<length ls]"
proof (induction ls arbitrary: before)
  case Nil
  show ?case by simp
next
  case (Cons l rest)
  have tl: "fixLines (item_number (before @ [l])) rest =
      map (\<lambda>i. renumbered (before @ take (Suc i) (l # rest)) ((l # rest) ! Suc i)) [0..<length rest]"
    using Cons.IH [of "before @ [l]"] by simp
  have "fixLines (item_number before) (l # rest) =
      renumbered before l # fixLines (item_number (before @ [l])) rest"
    by (auto simp: renumbered_def item_number_snoc split: option.splits)
  also have "\<dots> = map (\<lambda>i. renumbered (before @ take i (l # rest)) ((l # rest) ! i))
      [0..<length (l # rest)]"
    unfolding tl by (simp add: map_upt_Suc0 del: upt_Suc)
  finally show ?case .
qed

lemma item_number_Nil: "item_number [] = 1"
  by (simp add: item_number_def)

text \<open>
  C6. \<open>fixNumberedLists\<close> keeps the number of lines; it rewrites each line that matches the
  ordered-list-item pattern to its indent, its sequence number, \<open>. \<close> and its content, and
  keeps every other line. The sequence number does not depend on the digits in the text: it
  is 1 for the first matched line of the text and after a blank line, and one more than
  the previous matched line's otherwise. The text \<open>5. a\<close>, \<open>7. b\<close>, blank, \<open>3. c\<close> becomes
  \<open>1. a\<close>, \<open>2. b\<close>, blank, \<open>1. c\<close>.
\<close>

theorem fixNumberedLists_renumbers:
  "fixNumberedLists text =
     join_lines (map (\<lambda>i. renumbered (take i (split_lines text)) (split_lines text ! i))
                   [0..<length (split_lines text)]) \<and>
   fixNumberedLists (''5. a'' @ [CHR 0x0A] @ ''7. b'' @ [CHR 0x0A, CHR 0x0A] @ ''3. c'') =
     ''1. a'' @ [CHR 0x0A] @ ''2. b'' @ [CHR 0x0A, CHR 0x0A] @ ''1. c''"
proof
  show "fixNumberedLists text =
     join_lines (map (\<lambda>i. renumbered (take i (split_lines text)) (split_lines text ! i))
                   [0..<length (split_lines text)])"
    unfolding fixNumberedLists_def
    using fixLines_closed_form [of "[]" "split_lines text"] by (simp add: item_number_Nil)
  show "fixNumberedLists (''5. a'' @ [CHR 0x0A] @ ''7. b'' @ [CHR 0x0A, CHR 0x0A] @ ''3. c'') =
     ''1. a'' @ [CHR 0x0A] @ ''2. b'' @ [CHR 0x0A, CHR 0x0A] @ ''1. c''"
    by code_simp
qed

theorem fixNumberedLists_renumbers_witness:
  "fixNumberedLists (''  **9)** x'' @ [CHR 0x0A] @ ''note'' @ [CHR 0x0A] @ ''4. y'') =
     ''  1. x'' @ [CHR 0x0A] @ ''note'' @ [CHR 0x0A] @ ''2. y''"
proof -
  have "join_lines (map (\<lambda>i. renumbered (take i (split_lines (''  **9)** x'' @ [CHR 0x0A] @ ''note'' @ [CHR 0x0A] @ ''4. y'')))
           (split_lines (''  **9)** x'' @ [CHR 0x0A] @ ''note'' @ [CHR 0x0A] @ ''4. y'') ! i))
        [0..<length (split_lines (''  **9)** x'' @ [CHR 0x0A] @ ''note'' @ [CHR 0x0A] @ ''4. y''))]) =
     ''  1. x'' @ [CHR 0x0A] @ ''note'' @ [CHR 0x0A] @ ''2. y''"
    by code_simp
  then show ?thesis
    using fixNumberedLists_renumbers [of "''  **9)** x'' @ [CHR 0x0A] @ ''note'' @ [CHR 0x0A] @ ''4. y''"]
    by simp
qed

section \<open>Capping of lists\<close>

lemma isListItem_not_blank:
  assumes "isListItem line"
  shows "trim line \<noteq> []"
proof
  assume "trim line = []"
  then have "\<forall>c \<in> set line. isSpace c" by (simp add: trim_empty_iff)
  then have d: "dropWhile isSpace line = []" by (simp add: dropWhile_eq_Nil_conv)
  from assms show False unfolding isListItem_def Let_def d by simp
qed

lemma items_since_blank_snoc:
  "items_since_blank (before @ [l]) =
     (if isListItem l then Suc (items_since_blank before)
      else if trim l = [] then 0 else items_since_blank before)"
  using isListItem_not_blank [of l] by (auto simp: items_since_blank_def)

lemma limitLines_kept_lines:
  "(inList \<longrightarrow> listCount = items_since_blank before) \<Longrightarrow>
   (\<not> inList \<longrightarrow> items_since_blank before = 0) \<Longrightarrow>
   limitLines listCount inList ls = kept_lines before ls"
proof (induction ls arbitrary: listCount inList before)
  case Nil
  show ?case by simp
next
  case (Cons l rest)
  show ?case
  proof (cases "isListItem l")
    case True
    define c0 where "c0 = (if \<not> inList then 0 else listCount)"
    have c0: "c0 = items_since_blank before"
      using Cons.prems by (auto simp: c0_def)
    have rest: "limitLines (c0 + 1) True rest = kept_lines (before @ [l]) rest"
      by (rule Cons.IH) (simp_all add: items_since_blank_snoc True c0)
    have "limitLines listCount inList (l # rest) =
        (if c0 + 1 \<le> 3 then [l] else []) @ limitLines (c0 + 1) True rest"
      using True by (simp add: c0_def Let_def)
    also have "\<dots> = kept_lines before (l # rest)"
      unfolding rest using True by (simp add: kept_def c0)
    finally show ?thesis .
  next
    case False
    show ?thesis
    proof (cases "trim l = []")
      case True
      have "limitLines 0 False rest = kept_lines (before @ [l]) rest"
        by (rule Cons.IH) (simp_all add: items_since_blank_snoc False True)
      moreover have "limitLines listCount False rest = kept_lines (before @ [l]) rest"
        by (rule Cons.IH) (simp_all add: items_since_blank_snoc False True)
      ultimately show ?thesis
        using False True by (cases inList) (simp_all add: kept_def)
    next
      case nb: False
      have "limitLines listCount inList rest = kept_lines (before @ [l]) rest"
        using Cons.prems by (intro Cons.IH) (simp_all add: items_since_blank_snoc False nb)
      then show ?thesis
        using False nb by (simp add: kept_def)
    qed
  qed
qed

lemma limitLines_other_lines:
  "filter (\<lambda>l. \<not> isListItem l) (limitLines listCount inList ls) =
   filter (\<lambda>l. \<not> isListItem l) ls"
  by (induction ls arbitrary: listCount inList) (simp_all add: Let_def)

lemma limitLines_subset: "set (limitLines listCount inList ls) \<subseteq> set ls"
  by (induction ls arbitrary: listCount inList) (auto simp: Let_def split: if_splits)

lemma limitLines_not_Nil: "ls \<noteq> [] \<Longrightarrow> limitLines 0 False ls \<noteq> []"
  by (cases ls) (simp_all add: Let_def)

lemma limitLines_run_ok:
  "k \<le> 3 \<Longrightarrow> (inList \<longrightarrow> k \<le> listCount) \<Longrightarrow> (\<not> inList \<longrightarrow> k = 0) \<Longrightarrow>
   run_ok k (limitLines listCount inList ls)"
proof (induction ls arbitrary: k listCount inList)
  case Nil
  show ?case by simp
next
  case (Cons l rest)
  show ?case
  proof (cases "isListItem l")
    case True
    define c0 where "c0 = (if \<not> inList then 0 else listCount)"
    have k: "k \<le> c0" using Cons.prems by (auto simp: c0_def)
    have eq: "limitLines listCount inList (l # rest) =
        (if c0 + 1 \<le> 3 then [l] else []) @ limitLines (c0 + 1) True rest"
      using True by (simp add: c0_def Let_def)
    show ?thesis
    proof (cases "c0 + 1 \<le> 3")
      case le: True
      have "run_ok (Suc k) (limitLines (c0 + 1) True rest)"
        using k le by (intro Cons.IH) simp_all
      then show ?thesis unfolding eq using True k le by simp
    next
      case gt: False
      have "run_ok k (limitLines (c0 + 1) True rest)"
        using k Cons.prems(1) by (intro Cons.IH) simp_all
      then show ?thesis unfolding eq using gt by simp
    qed
  next
    case False
    have 1: "run_ok 0 (limitLines 0 False rest)" by (intro Cons.IH) simp_all
    have 2: "run_ok 0 (limitLines listCount inList rest)" by (intro Cons.IH) simp_all
    show ?thesis using False 1 2 by simp
  qed
qed

lemma run_ok_no_four:
  "run_ok k (a @ [w, x, y, z] @ b) \<Longrightarrow>
   isListItem w \<Longrightarrow> isListItem x \<Longrightarrow> isListItem y \<Longrightarrow> isListItem z \<Longrightarrow> False"
proof (induction a arbitrary: k)
  case Nil
  then show ?case by simp
next
  case (Cons l a)
  then show ?case by (cases "isListItem l") auto
qed

lemma split_limitList: "split_lines (limitList text) = limitLines 0 False (split_lines text)"
  unfolding limitList_def
proof (rule split_join_lines)
  show "limitLines 0 False (split_lines text) \<noteq> []"
    by (rule limitLines_not_Nil) simp
  show "\<forall>l \<in> set (limitLines 0 False (split_lines text)). CHR 0x0A \<notin> set l"
    using limitLines_subset [of 0 False "split_lines text"] split_lines_no_newline by blast
qed

text \<open>
  C5 (as the code has it). The lines of \<open>limitList text\<close> are the lines of \<open>text\<close> without
  the list-item lines that have three or more list-item lines between the last blank line
  in front of them (or the start of the text) and themselves: only a blank line ends a list,
  and list items separated by other non-blank lines count as one list. Every line that is not
  a list item is passed on unchanged and in order, and the result never has four list-item
  lines in a row.
\<close>

theorem limitList_keeps_three_per_block:
  "split_lines (limitList text) = kept_lines [] (split_lines text) \<and>
   filter (\<lambda>l. \<not> isListItem l) (split_lines (limitList text)) =
     filter (\<lambda>l. \<not> isListItem l) (split_lines text) \<and>
   \<not> (\<exists>a w x y z b. split_lines (limitList text) = a @ [w, x, y, z] @ b \<and>
         isListItem w \<and> isListItem x \<and> isListItem y \<and> isListItem z)"
proof (intro conjI)
  show "split_lines (limitList text) = kept_lines [] (split_lines text)"
    unfolding split_limitList
    by (rule limitLines_kept_lines) (simp_all add: items_since_blank_def)
  show "filter (\<lambda>l. \<not> isListItem l) (split_lines (limitList text)) =
     filter (\<lambda>l. \<not> isListItem l) (split_lines text)"
    unfolding split_limitList by (rule limitLines_other_lines)
  have "run_ok 0 (split_lines (limitList text))"
    unfolding split_limitList by (rule limitLines_run_ok) simp_all
  then show "\<not> (\<exists>a w x y z b. split_lines (limitList text) = a @ [w, x, y, z] @ b \<and>
         isListItem w \<and> isListItem x \<and> isListItem y \<and> isListItem z)"
    using run_ok_no_four by metis
qed

theorem limitList_keeps_three_per_block_witness:
  "split_lines (limitList (''- a'' @ [CHR 0x0A] @ ''- b'' @ [CHR 0x0A] @ ''- c'' @ [CHR 0x0A] @
       ''- d'' @ [CHR 0x0A, CHR 0x0A] @ ''1. e'')) =
     [''- a'', ''- b'', ''- c'', [], ''1. e'']"
proof -
  have "kept_lines [] (split_lines (''- a'' @ [CHR 0x0A] @ ''- b'' @ [CHR 0x0A] @ ''- c'' @ [CHR 0x0A] @
       ''- d'' @ [CHR 0x0A, CHR 0x0A] @ ''1. e'')) = [''- a'', ''- b'', ''- c'', [], ''1. e'']"
    by code_simp
  then show ?thesis
    using limitList_keeps_three_per_block [of "''- a'' @ [CHR 0x0A] @ ''- b'' @ [CHR 0x0A] @ ''- c'' @ [CHR 0x0A] @
       ''- d'' @ [CHR 0x0A, CHR 0x0A] @ ''1. e''"]
    by simp
qed

text \<open>
  The capping of the specification's wording is another function: a non-blank line that is not a list item
  does not end the list, so the fourth item behind such a line is dropped although it
  starts a run of its own.
\<close>

theorem limitList_counterexample:
  "limitList (''- a'' @ [CHR 0x0A] @ ''- b'' @ [CHR 0x0A] @ ''- c'' @ [CHR 0x0A] @ ''note'' @
       [CHR 0x0A] @ ''- d'') =
     ''- a'' @ [CHR 0x0A] @ ''- b'' @ [CHR 0x0A] @ ''- c'' @ [CHR 0x0A] @ ''note'' \<and>
   limitList_spec (''- a'' @ [CHR 0x0A] @ ''- b'' @ [CHR 0x0A] @ ''- c'' @ [CHR 0x0A] @ ''note'' @
       [CHR 0x0A] @ ''- d'') =
     ''- a'' @ [CHR 0x0A] @ ''- b'' @ [CHR 0x0A] @ ''- c'' @ [CHR 0x0A] @ ''note'' @
       [CHR 0x0A] @ ''- d'' \<and>
   limitList (''- a'' @ [CHR 0x0A] @ ''- b'' @ [CHR 0x0A] @ ''- c'' @ [CHR 0x0A] @ ''note'' @
       [CHR 0x0A] @ ''- d'') \<noteq>
   limitList_spec (''- a'' @ [CHR 0x0A] @ ''- b'' @ [CHR 0x0A] @ ''- c'' @ [CHR 0x0A] @ ''note'' @
       [CHR 0x0A] @ ''- d'')"
  by code_simp

section \<open>Validation of the conversation history\<close>

lemma suffix_slice_last:
  assumes "suffix ys zs" "length ys \<le> n"
  shows "suffix ys (slice_last n zs)"
proof -
  from assms(1) obtain ps where zs: "zs = ps @ ys" by (auto simp: suffix_def)
  have "slice_last n zs = drop (length zs - n) ps @ ys"
    using assms(2) by (simp add: slice_last_def zs)
  then show ?thesis by (simp add: suffix_def)
qed

lemma filter_slice_last_suffix: "suffix (filter P (slice_last n xs)) (filter P xs)"
proof -
  have "filter P xs = filter P (take (length xs - n) xs) @ filter P (slice_last n xs)"
    unfolding slice_last_def filter_append [symmetric] by simp
  then show ?thesis unfolding suffix_def by blast
qed

lemma cap_filter_suffix:
  "suffix (filter P (slice_last n xs)) (slice_last n (filter P xs))"
proof (rule suffix_slice_last)
  show "suffix (filter P (slice_last n xs)) (filter P xs)" by (rule filter_slice_last_suffix)
  have "length (filter P (slice_last n xs)) \<le> length (slice_last n xs)" by (rule length_filter_le)
  then show "length (filter P (slice_last n xs)) \<le> n" by (simp add: slice_last_length)
qed

lemma cap_filter_eq:
  assumes "length xs \<le> n \<or> (\<forall>x \<in> set (slice_last n xs). P x)"
  shows "filter P (slice_last n xs) = slice_last n (filter P xs)"
proof (cases "length xs \<le> n")
  case True
  then have "slice_last n xs = xs" by (rule slice_last_all)
  moreover have "length (filter P xs) \<le> n"
    using True length_filter_le [of P xs] by linarith
  then have "slice_last n (filter P xs) = filter P xs" by (rule slice_last_all)
  ultimately show ?thesis by simp
next
  case False
  with assms have all: "\<forall>x \<in> set (slice_last n xs). P x" by blast
  then have f: "filter P (slice_last n xs) = slice_last n xs" by simp
  have len: "length (slice_last n xs) = n" using False by (simp add: slice_last_length)
  have "filter P xs = filter P (take (length xs - n) xs) @ filter P (slice_last n xs)"
    unfolding slice_last_def filter_append [symmetric] by simp
  then have "slice_last n (filter P xs) =
      slice_last n (filter P (take (length xs - n) xs) @ slice_last n xs)"
    by (simp add: f)
  also have "\<dots> = slice_last n xs" using len by (rule slice_last_append)
  finally show ?thesis using f by simp
qed

lemma sanitizeString_length: "length (sanitizeString v n) \<le> n"
  by (cases v) (simp_all add: Let_def substring0_def)

lemma valid_entry_role:
  "valid_entry msg \<Longrightarrow>
   role (sanitized_entry msg) = ''user'' \<or> role (sanitized_entry msg) = ''assistant''"
  by (auto simp: valid_entry_def sanitized_entry_def)

lemma sanitized_entry_length: "length (content (sanitized_entry msg)) \<le> 250"
  by (simp add: sanitized_entry_def sanitizeString_length)

text \<open>
  C7 (as the code has it). \<open>validateConversationHistory\<close> caps the array to its last ten
  entries and then filters. Its result and the result of the other order, filtering and
  then capping, both hold at most ten entries, each with the role \<open>user\<close> or \<open>assistant\<close>
  and a content of at most 250 characters. The code's result is the sanitized valid entries
  among the last ten entries of the input; it is a suffix of the other order's result, and
  the two are equal when the input has at most ten entries or each of its last ten entries
  is valid. They differ otherwise: see the counterexample.
\<close>

theorem validateConversationHistory_cap_then_filter:
  "length (validateConversationHistory h) \<le> 10 \<and>
   length (validate_filter_then_cap h) \<le> 10 \<and>
   (\<forall>m \<in> set (validateConversationHistory h) \<union> set (validate_filter_then_cap h).
       (role m = ''user'' \<or> role m = ''assistant'') \<and> length (content m) \<le> 250) \<and>
   suffix (validateConversationHistory h) (validate_filter_then_cap h) \<and>
   (\<forall>xs. h = JArr xs \<longrightarrow>
       validateConversationHistory h =
         map sanitized_entry (filter valid_entry (slice_last 10 xs)) \<and>
       (length xs \<le> 10 \<or> (\<forall>x \<in> set (slice_last 10 xs). valid_entry x) \<longrightarrow>
          validateConversationHistory h = validate_filter_then_cap h))"
proof (cases "\<exists>xs. h = JArr xs")
  case False
  then have "validateConversationHistory h = []" "validate_filter_then_cap h = []"
    by (cases h; simp)+
  with False show ?thesis by simp
next
  case True
  then obtain xs where h: "h = JArr xs" by blast
  have c1: "validateConversationHistory h =
      map sanitized_entry (filter valid_entry (slice_last 10 xs))"
    by (simp add: h)
  have c2: "validate_filter_then_cap h =
      map sanitized_entry (slice_last 10 (filter valid_entry xs))"
    by (simp add: h)
  have "length (filter valid_entry (slice_last 10 xs)) \<le> length (slice_last 10 xs)"
    by (rule length_filter_le)
  then have l1: "length (validateConversationHistory h) \<le> 10"
    by (simp add: c1 slice_last_length)
  have l2: "length (validate_filter_then_cap h) \<le> 10"
    by (simp add: c2 slice_last_length)
  have "set (slice_last 10 (filter valid_entry xs)) \<subseteq> set (filter valid_entry xs)"
    unfolding slice_last_def by (rule set_drop_subset)
  then have v2: "\<forall>x \<in> set (slice_last 10 (filter valid_entry xs)). valid_entry x" by auto
  have ent: "\<forall>m \<in> set (validateConversationHistory h) \<union> set (validate_filter_then_cap h).
       (role m = ''user'' \<or> role m = ''assistant'') \<and> length (content m) \<le> 250"
  proof
    fix m
    assume "m \<in> set (validateConversationHistory h) \<union> set (validate_filter_then_cap h)"
    then obtain x where "valid_entry x" "m = sanitized_entry x"
      unfolding c1 c2 using v2 by auto
    then show "(role m = ''user'' \<or> role m = ''assistant'') \<and> length (content m) \<le> 250"
      using valid_entry_role [of x] sanitized_entry_length [of x] by simp
  qed
  have suf: "suffix (validateConversationHistory h) (validate_filter_then_cap h)"
    unfolding c1 c2 by (intro map_mono_suffix cap_filter_suffix)
  have eq: "\<forall>ys. h = JArr ys \<longrightarrow>
       validateConversationHistory h =
         map sanitized_entry (filter valid_entry (slice_last 10 ys)) \<and>
       (length ys \<le> 10 \<or> (\<forall>x \<in> set (slice_last 10 ys). valid_entry x) \<longrightarrow>
          validateConversationHistory h = validate_filter_then_cap h)"
  proof (intro allI impI conjI)
    fix ys
    assume "h = JArr ys"
    then have ys: "ys = xs" using h by simp
    show "validateConversationHistory h =
         map sanitized_entry (filter valid_entry (slice_last 10 ys))"
      unfolding ys by (rule c1)
    assume "length ys \<le> 10 \<or> (\<forall>x \<in> set (slice_last 10 ys). valid_entry x)"
    then have "filter valid_entry (slice_last 10 xs) = slice_last 10 (filter valid_entry xs)"
      unfolding ys by (rule cap_filter_eq)
    then show "validateConversationHistory h = validate_filter_then_cap h"
      unfolding c1 c2 by simp
  qed
  from l1 l2 ent suf eq show ?thesis by blast
qed

theorem validateConversationHistory_cap_then_filter_witness:
  "validateConversationHistory history12 = replicate 10 \<lparr>role = ''user'', content = ''hi''\<rparr> \<and>
   validate_filter_then_cap history12 = replicate 10 \<lparr>role = ''user'', content = ''hi''\<rparr>"
proof -
  let ?e = "JObj [(''role'', JStr ''user''), (''content'', JStr '' hi '')]"
  let ?xs = "JObj [(''role'', JStr ''system''), (''content'', JStr ''old'')] # JNum 7 # replicate 10 ?e"
  have sl: "slice_last 10 ?xs = replicate 10 ?e"
    by (simp add: slice_last_def)
  have v: "valid_entry ?e" by code_simp
  have s: "sanitized_entry ?e = \<lparr>role = ''user'', content = ''hi''\<rparr>" by code_simp
  have all: "\<forall>x \<in> set (slice_last 10 ?xs). valid_entry x"
    unfolding sl using v by simp
  have "map sanitized_entry (filter valid_entry (slice_last 10 ?xs)) =
      replicate 10 \<lparr>role = ''user'', content = ''hi''\<rparr>"
    unfolding sl using v s by simp
  then show ?thesis
    using validateConversationHistory_cap_then_filter [of history12] all
    unfolding history12_def by simp
qed

text \<open>
  The two orders differ when an invalid entry is among the last ten: capping first loses
  the valid entry in front of the window.
\<close>

theorem validateConversationHistory_counterexample:
  "length (validateConversationHistory
      (JArr (replicate 10 (JObj [(''role'', JStr ''user''), (''content'', JStr ''hi'')]) @ [JNull]))) = 9 \<and>
   length (validate_filter_then_cap
      (JArr (replicate 10 (JObj [(''role'', JStr ''user''), (''content'', JStr ''hi'')]) @ [JNull]))) = 10 \<and>
   validateConversationHistory
      (JArr (replicate 10 (JObj [(''role'', JStr ''user''), (''content'', JStr ''hi'')]) @ [JNull])) \<noteq>
   validate_filter_then_cap
      (JArr (replicate 10 (JObj [(''role'', JStr ''user''), (''content'', JStr ''hi'')]) @ [JNull]))"
  by code_simp

section \<open>Gating\<close>

text \<open>
  C1. The gating of the handler follows a fixed precedence. When \<open>isRepeated\<close> holds, the
  fixed refusal is sent with \<open>consultationIntent = false\<close> and no request goes to the
  provider. Otherwise, when \<open>detectConsultationIntent\<close> is false and \<open>isOffTopic\<close> holds,
  the fixed redirect is sent with \<open>consultationIntent = false\<close> and no request goes to the
  provider. Otherwise exactly one request goes to the provider, and when the provider
  answers, the response carries the post-processed answer and the computed
  \<open>consultationIntent\<close>.
\<close>

theorem gating_precedence:
  "(isRepeated message history \<longrightarrow>
      gateAndComplete env message history = (Reply 200 (ChatBody REPEATED_TEXT False), [])) \<and>
   (\<not> isRepeated message history \<and> \<not> detectConsultationIntent message history \<and>
    isOffTopic message history \<longrightarrow>
      gateAndComplete env message history = (Reply 200 (ChatBody OFF_TOPIC_TEXT False), [])) \<and>
   (\<not> isRepeated message history \<and>
    (detectConsultationIntent message history \<or> \<not> isOffTopic message history) \<longrightarrow>
      snd (gateAndComplete env message history) = [buildRequest env message history] \<and>
      (\<forall>answer. complete env (buildRequest env message history) = Inr answer \<longrightarrow>
         fst (gateAndComplete env message history) =
           Reply 200 (ChatBody (postProcess env (detectConsultationIntent message history) answer)
                        (detectConsultationIntent message history))))"
proof (intro conjI impI)
  assume "isRepeated message history"
  then show "gateAndComplete env message history = (Reply 200 (ChatBody REPEATED_TEXT False), [])"
    by (simp add: gateAndComplete_def)
next
  assume "\<not> isRepeated message history \<and> \<not> detectConsultationIntent message history \<and>
    isOffTopic message history"
  then show "gateAndComplete env message history = (Reply 200 (ChatBody OFF_TOPIC_TEXT False), [])"
    by (simp add: gateAndComplete_def)
next
  assume a: "\<not> isRepeated message history \<and>
    (detectConsultationIntent message history \<or> \<not> isOffTopic message history)"
  then show "snd (gateAndComplete env message history) = [buildRequest env message history]"
    by (auto simp: gateAndComplete_def Let_def split: sum.splits)
  from a show "\<forall>answer. complete env (buildRequest env message history) = Inr answer \<longrightarrow>
         fst (gateAndComplete env message history) =
           Reply 200 (ChatBody (postProcess env (detectConsultationIntent message history) answer)
                        (detectConsultationIntent message history))"
    by (auto simp: gateAndComplete_def Let_def split: sum.splits)
qed

theorem gating_precedence_witness:
  "gateAndComplete example_env ''what is das?''
     [\<lparr>role = ''user'', content = ''What is DAS?''\<rparr>,
      \<lparr>role = ''user'', content = ''What is DAS?''\<rparr>,
      \<lparr>role = ''user'', content = ''what is das?''\<rparr>] =
     (Reply 200 (ChatBody REPEATED_TEXT False), []) \<and>
   gateAndComplete example_env ''what is the weather today'' [] =
     (Reply 200 (ChatBody OFF_TOPIC_TEXT False), []) \<and>
   gateAndComplete example_env ''hello'' [] =
     (Reply 200 (ChatBody ''A DAS spreads cellular signal. Ask me more.'' False),
      [buildRequest example_env ''hello'' []])"
proof -
  let ?h = "[\<lparr>role = ''user'', content = ''What is DAS?''\<rparr>,
      \<lparr>role = ''user'', content = ''What is DAS?''\<rparr>,
      \<lparr>role = ''user'', content = ''what is das?''\<rparr>]"
  have rep: "isRepeated ''what is das?'' ?h" by code_simp
  have off: "\<not> isRepeated ''what is the weather today'' []"
    "\<not> detectConsultationIntent ''what is the weather today'' []"
    "isOffTopic ''what is the weather today'' []"
    by code_simp+
  have hello: "\<not> isRepeated ''hello'' []" "\<not> detectConsultationIntent ''hello'' []"
    "\<not> isOffTopic ''hello'' []"
    by code_simp+
  have answer: "complete example_env (buildRequest example_env ''hello'' []) =
      Inr ''A DAS spreads cellular signal.Ask me more.''"
    by (simp add: example_env_def)
  have post: "postProcess example_env False ''A DAS spreads cellular signal.Ask me more.'' =
      ''A DAS spreads cellular signal. Ask me more.''"
    by code_simp
  have 1: "gateAndComplete example_env ''what is das?'' ?h =
      (Reply 200 (ChatBody REPEATED_TEXT False), [])"
    using gating_precedence [of "''what is das?''" ?h example_env] rep by blast
  have 2: "gateAndComplete example_env ''what is the weather today'' [] =
      (Reply 200 (ChatBody OFF_TOPIC_TEXT False), [])"
    using gating_precedence [of "''what is the weather today''" "[]" example_env] off by blast
  have 3: "snd (gateAndComplete example_env ''hello'' []) = [buildRequest example_env ''hello'' []] \<and>
      fst (gateAndComplete example_env ''hello'' []) =
        Reply 200 (ChatBody (postProcess example_env False
            ''A DAS spreads cellular signal.Ask me more.'') False)"
    using gating_precedence [of "''hello''" "[]" example_env] hello answer by simp
  then have "gateAndComplete example_env ''hello'' [] =
     (Reply 200 (ChatBody ''A DAS spreads cellular signal. Ask me more.'' False),
      [buildRequest example_env ''hello'' []])"
    unfolding post by (simp add: prod_eq_iff)
  with 1 2 show ?thesis by blast
qed

lemma chatHandler_gates:
  "sanitizeString (JStr message0) 250 \<noteq> [] \<Longrightarrow>
   chatHandler env message0 (Some history0) =
     gateAndComplete env (sanitizeString (JStr message0) 250)
       (validateConversationHistory history0)"
  by (simp add: chatHandler_def Let_def)

section \<open>Failures of the completion call\<close>

lemma errorResponse_without_status:
  "err_status e = None \<or> err_status e = Some 0 \<or> err_status e = Some 500 \<Longrightarrow>
   errorResponse e = Reply 500 (ErrorBody ''Request failed'' GENERIC_ERROR_TEXT)"
  by (auto simp: errorResponse_def)

text \<open>
  C2 (the code does otherwise). The response for a failed completion call holds the generic
  text only when the error has no status or the status 500. For an error with another
  status, here 503, the handler sends that status and the error's own message to the
  client.
\<close>

theorem chatHandler_sends_provider_message:
  "fst (chatHandler failing_env ''What is DAS?'' None) =
     Reply 503 (ErrorBody ''Request failed''
       ''503 upstream failure at api.provider.internal for org-4711'')"
  by code_simp

section \<open>Markup\<close>

lemma markup_append:
  "markup out1 shown1 \<Longrightarrow> markup out2 shown2 \<Longrightarrow> markup (out1 @ out2) (shown1 @ shown2)"
proof (induction rule: markup.induct)
  case markup_Nil
  then show ?case by simp
next
  case (markup_plain c out shown)
  then show ?case by (simp add: markup.markup_plain)
next
  case (markup_amp out shown)
  then show ?case using markup.markup_amp [of "out @ out2" "shown @ shown2"] by simp
next
  case (markup_lt out shown)
  then show ?case using markup.markup_lt [of "out @ out2" "shown @ shown2"] by simp
next
  case (markup_gt out shown)
  then show ?case using markup.markup_gt [of "out @ out2" "shown @ shown2"] by simp
next
  case (markup_nbsp out shown)
  then show ?case using markup.markup_nbsp [of "out @ out2" "shown @ shown2"] by simp
next
  case (markup_tag tag out shown)
  then show ?case using markup.markup_tag [of tag "out @ out2" "shown @ shown2"] by simp
qed

lemma markup_escapeChar: "markup out shown \<Longrightarrow> markup (escapeChar c @ out) (c # shown)"
  unfolding escapeChar_def
  using markup_amp [of out shown] markup_lt [of out shown] markup_gt [of out shown]
    markup_nbsp [of out shown] markup_plain [of c out shown]
  by (auto simp: isSpecial_def)

lemma escapeHtml_Cons: "escapeHtml (c # s) = escapeChar c @ escapeHtml s"
  by (simp add: escapeHtml_def)

lemma escapeHtml_append: "escapeHtml (a @ b) = escapeHtml a @ escapeHtml b"
  by (simp add: escapeHtml_def)

lemma markup_escapeHtml: "markup (escapeHtml s) s"
proof (induction s)
  case Nil
  show ?case by (simp add: escapeHtml_def markup_Nil)
next
  case (Cons c s)
  then show ?case unfolding escapeHtml_Cons by (rule markup_escapeChar)
qed

lemma markup_only_space:
  "markup out shown \<Longrightarrow> \<forall>c \<in> set out. isSpace c \<Longrightarrow> shown = out"
proof (induction rule: markup.induct)
  case (markup_tag tag out shown)
  from markup_tag.hyps(1) have "CHR ''<'' \<in> set tag"
    by (auto simp: RENDERER_TAGS_def)
  with markup_tag.prems have "isSpace CHR ''<''" by simp
  then show ?case by (simp add: isSpace_def whitespaceChars_def)
qed (simp_all add: isSpace_def whitespaceChars_def)

lemma markup_lt_is_tag:
  assumes "markup (CHR ''<'' # rest) shown"
  shows "\<exists>tag \<in> set RENDERER_TAGS. prefix tag (CHR ''<'' # rest)"
  using assms
proof (cases rule: markup.cases)
  case (markup_tag tag out)
  then show ?thesis by (auto simp: prefix_def)
qed (simp_all add: isSpecial_def)

section \<open>Bold emphasis on escaped text\<close>

lemma escapeChar_no_star: "c \<noteq> CHR ''*'' \<Longrightarrow> CHR ''*'' \<notin> set (escapeChar c)"
  by (simp add: escapeChar_def)

lemma escapeChar_star: "escapeChar CHR ''*'' = ''*''"
  by (simp add: escapeChar_def)

lemma escapeChar_line_terminator: "isLineTerminator c \<Longrightarrow> escapeChar c = [c]"
  by (auto simp: escapeChar_def isLineTerminator_def)

lemma escapeChar_no_line_terminator:
  "\<not> isLineTerminator c \<Longrightarrow> \<forall>d \<in> set (escapeChar c). \<not> isLineTerminator d"
  by (auto simp: escapeChar_def isLineTerminator_def)

lemma boldScan_no_star: "CHR ''*'' \<notin> set x \<Longrightarrow> boldScan 0 (x @ s) = x @ boldScan 0 s"
  by (induction x) auto

lemma boldScan_skip: "boldScan (length a + k) (a @ y) = boldScan k y"
  by (induction a) auto

lemma find_close_plain:
  "CHR ''*'' \<notin> set w \<Longrightarrow> \<forall>d \<in> set w. \<not> isLineTerminator d \<Longrightarrow>
   find_close (w @ x) = (case find_close x of None \<Rightarrow> None | Some (a, r) \<Rightarrow> Some (w @ a, r))"
  by (induction w) (auto split: option.splits)

lemma escapeHtml_starts_star:
  assumes "prefix ''*'' (escapeHtml s)"
  shows "\<exists>s'. s = CHR ''*'' # s'"
proof (cases s)
  case Nil
  with assms show ?thesis by (simp add: escapeHtml_def)
next
  case (Cons c s')
  with assms have "prefix ''*'' (escapeChar c @ escapeHtml s')" by (simp add: escapeHtml_Cons)
  then have "c = CHR ''*''" by (auto simp: escapeChar_def split: if_splits)
  with Cons show ?thesis by simp
qed

lemma find_close_escaped:
  "find_close (escapeHtml s) = Some (a, r) \<Longrightarrow>
   \<exists>a' r'. a = escapeHtml a' \<and> r = escapeHtml r' \<and> s = a' @ ''**'' @ r'"
proof (induction s arbitrary: a r)
  case Nil
  then show ?case by (simp add: escapeHtml_def)
next
  case (Cons c s)
  show ?case
  proof (cases "c = CHR ''*''")
    case True
    have e: "escapeHtml (c # s) = CHR ''*'' # escapeHtml s"
      using True by (simp add: escapeHtml_Cons escapeChar_star)
    show ?thesis
    proof (cases "prefix ''*'' (escapeHtml s)")
      case star: True
      then obtain s' where s: "s = CHR ''*'' # s'" using escapeHtml_starts_star by blast
      have "escapeHtml (c # s) = CHR ''*'' # CHR ''*'' # escapeHtml s'"
        unfolding e by (simp add: s escapeHtml_Cons escapeChar_star)
      with Cons.prems have "a = escapeHtml []" "r = escapeHtml s'"
        by (simp_all add: escapeHtml_def)
      moreover have "c # s = [] @ ''**'' @ s'" using True by (simp add: s)
      ultimately show ?thesis by blast
    next
      case False
      then have np: "\<not> prefix ''**'' (CHR ''*'' # escapeHtml s)" by simp
      from Cons.prems obtain a1 where f: "find_close (escapeHtml s) = Some (a1, r)"
        and a: "a = CHR ''*'' # a1"
        unfolding e using np
        by (auto simp: isLineTerminator_def split: option.splits if_splits)
      from Cons.IH [OF f] obtain a' r' where
        "a1 = escapeHtml a'" "r = escapeHtml r'" "s = a' @ ''**'' @ r'" by blast
      then have "a = escapeHtml (CHR ''*'' # a')" "r = escapeHtml r'"
        "c # s = (CHR ''*'' # a') @ ''**'' @ r'"
        using True by (simp_all add: a escapeHtml_Cons escapeChar_star)
      then show ?thesis by blast
    qed
  next
    case False
    show ?thesis
    proof (cases "isLineTerminator c")
      case True
      then have "escapeHtml (c # s) = c # escapeHtml s"
        by (simp add: escapeHtml_Cons escapeChar_line_terminator)
      with Cons.prems True False show ?thesis by simp
    next
      case nlt: False
      have "find_close (escapeChar c @ escapeHtml s) =
          (case find_close (escapeHtml s) of None \<Rightarrow> None
           | Some (a, r) \<Rightarrow> Some (escapeChar c @ a, r))"
        using False nlt
        by (intro find_close_plain escapeChar_no_star escapeChar_no_line_terminator)
      with Cons.prems obtain a1 where f: "find_close (escapeHtml s) = Some (a1, r)"
        and a: "a = escapeChar c @ a1"
        by (auto simp: escapeHtml_Cons split: option.splits)
      from Cons.IH [OF f] obtain a' r' where
        "a1 = escapeHtml a'" "r = escapeHtml r'" "s = a' @ ''**'' @ r'" by blast
      then have "a = escapeHtml (c # a')" "r = escapeHtml r'" "c # s = (c # a') @ ''**'' @ r'"
        by (simp_all add: a escapeHtml_Cons)
      then show ?thesis by blast
    qed
  qed
qed

lemma rendersI: "markup out shown \<Longrightarrow> filter isSpecial shown = filter isSpecial src \<Longrightarrow> renders out src"
  unfolding renders_def by blast

lemma renders_append: "renders out1 src1 \<Longrightarrow> renders out2 src2 \<Longrightarrow> renders (out1 @ out2) (src1 @ src2)"
  unfolding renders_def using markup_append by fastforce

lemma renders_tag: "tag \<in> set RENDERER_TAGS \<Longrightarrow> renders out src \<Longrightarrow> renders (tag @ out) src"
  unfolding renders_def using markup_tag by blast

lemma renders_tags:
  assumes "renders out src"
  shows "renders (''<strong>'' @ out) src" "renders (''</strong>'' @ out) src"
    "renders (''<li>'' @ out) src" "renders (''</li>'' @ out) src"
    "renders (''<ol>'' @ out) src" "renders (''</ol>'' @ out) src"
    "renders (''<ul>'' @ out) src" "renders (''</ul>'' @ out) src"
    "renders (''<p>'' @ out) src" "renders (''</p>'' @ out) src"
    "renders (''<br>'' @ out) src"
  using assms
    renders_tag [of "''<strong>''" out src] renders_tag [of "''</strong>''" out src]
    renders_tag [of "''<li>''" out src] renders_tag [of "''</li>''" out src]
    renders_tag [of "''<ol>''" out src] renders_tag [of "''</ol>''" out src]
    renders_tag [of "''<ul>''" out src] renders_tag [of "''</ul>''" out src]
    renders_tag [of "''<p>''" out src] renders_tag [of "''</p>''" out src]
    renders_tag [of "''<br>''" out src]
  by (simp_all add: RENDERER_TAGS_def)

lemma renders_Nil: "renders [] []"
  unfolding renders_def using markup_Nil by auto

lemma renders_cong: "renders out src \<Longrightarrow> filter isSpecial src = filter isSpecial src' \<Longrightarrow> renders out src'"
  unfolding renders_def by auto

lemma renders_escapeHtml: "renders (escapeHtml s) s"
  using markup_escapeHtml by (rule rendersI) simp

lemma renders_escapeChar: "renders out src \<Longrightarrow> renders (escapeChar c @ out) (c # src)"
  unfolding renders_def using markup_escapeChar by fastforce

lemma renders_boldReplace: "renders (boldReplace (escapeHtml s)) s"
proof (induction "length s" arbitrary: s rule: less_induct)
  case less
  show ?case
  proof (cases s)
    case Nil
    then show ?thesis by (simp add: boldReplace_def escapeHtml_def renders_Nil)
  next
    case (Cons c s1)
    have ih1: "renders (boldScan 0 (escapeHtml s1)) s1"
      using less [of s1] Cons by (simp add: boldReplace_def)
    show ?thesis
    proof (cases "c = CHR ''*''")
      case False
      have "boldScan 0 (escapeChar c @ escapeHtml s1) = escapeChar c @ boldScan 0 (escapeHtml s1)"
        using False by (intro boldScan_no_star escapeChar_no_star)
      then show ?thesis
        using renders_escapeChar [OF ih1, of c]
        by (simp add: boldReplace_def Cons escapeHtml_Cons)
    next
      case True
      have e: "escapeHtml s = CHR ''*'' # escapeHtml s1"
        using True by (simp add: Cons escapeHtml_Cons escapeChar_star)
      have keep: "renders (CHR ''*'' # boldScan 0 (escapeHtml s1)) s"
        using renders_escapeChar [OF ih1, of c] True by (simp add: escapeChar_star Cons)
      show ?thesis
      proof (cases "prefix ''*'' (escapeHtml s1)")
        case False
        then have "boldScan 0 (escapeHtml s) = CHR ''*'' # boldScan 0 (escapeHtml s1)"
          unfolding e by simp
        with keep show ?thesis by (simp add: boldReplace_def)
      next
        case star: True
        then obtain s2 where s1: "s1 = CHR ''*'' # s2" using escapeHtml_starts_star by blast
        have e1: "escapeHtml s1 = CHR ''*'' # escapeHtml s2"
          by (simp add: s1 escapeHtml_Cons escapeChar_star)
        show ?thesis
        proof (cases "find_close (escapeHtml s2)")
          case None
          then have "boldScan 0 (escapeHtml s) = CHR ''*'' # boldScan 0 (escapeHtml s1)"
            unfolding e e1 by simp
          with keep show ?thesis by (simp add: boldReplace_def)
        next
          case (Some ar)
          obtain a r where ar: "ar = (a, r)" by (cases ar)
          from Some ar find_close_escaped [of s2 a r] obtain a' r' where
            a: "a = escapeHtml a'" and r: "r = escapeHtml r'" and s2: "s2 = a' @ ''**'' @ r'"
            by blast
          have e2: "escapeHtml s2 = a @ CHR ''*'' # CHR ''*'' # r"
            by (simp add: s2 a r escapeHtml_append escapeHtml_Cons escapeChar_star)
          have "boldScan (length a + 3) (escapeHtml s1) = boldScan (length a + 2) (escapeHtml s2)"
            unfolding e1 by (simp add: eval_nat_numeral)
          also have "\<dots> = boldScan 2 (CHR ''*'' # CHR ''*'' # r)"
            unfolding e2 by (rule boldScan_skip)
          also have "\<dots> = boldScan 0 r" by (simp add: numeral_2_eq_2)
          finally have skip: "boldScan (length a + 3) (escapeHtml s1) = boldScan 0 r" .
          have out: "boldScan 0 (escapeHtml s) = ''<strong>'' @ a @ ''</strong>'' @ boldScan 0 r"
            unfolding e using Some ar skip by (simp add: e1)
          have "length r' < length s" by (simp add: Cons s1 s2)
          then have ihr: "renders (boldScan 0 r) r'"
            using less [of r'] by (simp add: boldReplace_def r)
          have "renders (''</strong>'' @ boldScan 0 r) r'"
            using ihr by (rule renders_tags)
          then have "renders (a @ ''</strong>'' @ boldScan 0 r) (a' @ r')"
            unfolding a by (intro renders_append renders_escapeHtml)
          then have "renders (''<strong>'' @ a @ ''</strong>'' @ boldScan 0 r) (a' @ r')"
            by (rule renders_tags)
          moreover have "filter isSpecial (a' @ r') = filter isSpecial s"
            using True by (simp add: Cons s1 s2 isSpecial_def)
          ultimately have "renders (boldScan 0 (escapeHtml s)) s"
            unfolding out by (rule renders_cong)
          then show ?thesis by (simp add: boldReplace_def)
        qed
      qed
    qed
  qed
qed
section \<open>The rendering loop\<close>

lemma space_not_special: "isSpace c \<Longrightarrow> \<not> isSpecial c"
  by (auto simp: isSpace_def whitespaceChars_def isSpecial_def)

lemma digit_not_special: "isDigit c \<Longrightarrow> \<not> isSpecial c"
  by (auto simp: isDigit_def isSpecial_def)

lemma specials_dropWhile_space:
  "filter isSpecial (dropWhile isSpace s) = filter isSpecial s"
  by (induction s) (simp_all add: space_not_special)

lemma specials_dropWhile_digit:
  "filter isSpecial (dropWhile isDigit s) = filter isSpecial s"
  by (induction s) (simp_all add: digit_not_special)

lemma specials_trim: "filter isSpecial (trim s) = filter isSpecial s"
proof -
  have "filter isSpecial (trim s) = rev (filter isSpecial (dropWhile isSpace (rev (dropWhile isSpace s))))"
    by (simp add: trim_def rev_filter)
  also have "\<dots> = rev (filter isSpecial (rev (dropWhile isSpace s)))"
    by (simp only: specials_dropWhile_space)
  also have "\<dots> = filter isSpecial (dropWhile isSpace s)"
    by (simp add: rev_filter)
  finally show ?thesis by (simp only: specials_dropWhile_space)
qed

lemma specials_ws_then_rest:
  assumes "ws_then_rest s = Some g"
  shows "filter isSpecial g = filter isSpecial s"
proof -
  define ws where "ws = takeWhile isSpace s"
  define r where "r = dropWhile isSpace s"
  have rs: "filter isSpecial r = filter isSpecial s"
    unfolding r_def by (rule specials_dropWhile_space)
  from assms consider "g = r" | "r = []" "ws \<noteq> []" "g = [last ws]"
    unfolding ws_then_rest_def Let_def ws_def r_def by (auto split: if_splits)
  then show ?thesis
  proof cases
    case 1
    with rs show ?thesis by simp
  next
    case 2
    have "last ws \<in> set ws" using 2(2) by simp
    then have "isSpace (last ws)" unfolding ws_def by (auto dest: set_takeWhileD)
    then have "filter isSpecial g = []" using 2(3) by (simp add: space_not_special)
    with rs 2(1) show ?thesis by simp
  qed
qed

lemma specials_numberedMatch:
  assumes "numberedMatch t = Some g"
  shows "filter isSpecial g = filter isSpecial t"
proof -
  from assms obtain r1 where r: "dropWhile isDigit t = CHR ''.'' # r1"
    and g: "ws_then_rest r1 = Some g"
    unfolding numberedMatch_def Let_def by (auto split: if_splits list.splits)
  have "filter isSpecial g = filter isSpecial r1" using g by (rule specials_ws_then_rest)
  also have "\<dots> = filter isSpecial (dropWhile isDigit t)" by (simp add: r isSpecial_def)
  finally show ?thesis by (simp only: specials_dropWhile_digit)
qed

lemma specials_bulletMatch:
  assumes "bulletMatch t = Some g"
  shows "filter isSpecial g = filter isSpecial t"
proof -
  from assms obtain c r where t: "t = c # r" and c: "c \<in> set [CHR ''-'', CHR ''*'', CHR 0xE2, CHR 0xA2]"
    and g: "ws_then_rest r = Some g"
    unfolding bulletMatch_def by (auto split: if_splits list.splits)
  have "\<not> isSpecial c" using c by (auto simp: isSpecial_def)
  moreover have "filter isSpecial g = filter isSpecial r" using g by (rule specials_ws_then_rest)
  ultimately show ?thesis by (simp add: t)
qed

lemma renders_closing:
  "renders ''</ol>'' []" "renders ''</ul>'' []" "renders ''</li>'' []" "renders ''</p>'' []"
  using renders_tags(6) [OF renders_Nil] renders_tags(8) [OF renders_Nil]
    renders_tags(4) [OF renders_Nil] renders_tags(10) [OF renders_Nil]
  by simp_all

lemma renders_list_block:
  assumes "renders body src" "tag = ''ol'' \<or> tag = ''ul''"
  shows "renders (''<'' @ tag @ ''>'' @ body @ ''</'' @ tag @ ''>'') src"
proof -
  have c1: "renders (body @ ''</ol>'') src"
    using renders_append [OF assms(1) renders_closing(1)] by simp
  have c2: "renders (body @ ''</ul>'') src"
    using renders_append [OF assms(1) renders_closing(2)] by simp
  from assms(2) show ?thesis
  proof
    assume "tag = ''ol''"
    then show ?thesis using renders_tags(5) [OF c1] by simp
  next
    assume "tag = ''ul''"
    then show ?thesis using renders_tags(7) [OF c2] by simp
  qed
qed

lemma markup_Nil_shown: "markup [] shown \<Longrightarrow> shown = []"
  by (erule markup.cases) (auto simp: RENDERER_TAGS_def)

lemma renders_Nil_specials: "renders [] src \<Longrightarrow> filter isSpecial src = []"
  unfolding renders_def using markup_Nil_shown by fastforce

lemma render_invI:
  "list_all2 renders result ss \<Longrightarrow> renders (concat listItems) s2 \<Longrightarrow>
   filter isSpecial (concat ss @ s2) = filter isSpecial src \<Longrightarrow>
   (currentList = None \<longrightarrow> listItems = []) \<Longrightarrow>
   currentList = None \<or> currentList = Some ''ol'' \<or> currentList = Some ''ul'' \<Longrightarrow>
   render_inv (result, currentList, listItems) src"
  unfolding render_inv_def prod.case by blast

lemma render_invE:
  assumes "render_inv (result, currentList, listItems) src"
  obtains ss s2 where "list_all2 renders result ss" "renders (concat listItems) s2"
    "filter isSpecial (concat ss @ s2) = filter isSpecial src"
    "currentList = None \<longrightarrow> listItems = []"
    "currentList = None \<or> currentList = Some ''ol'' \<or> currentList = Some ''ul''"
  using assms unfolding render_inv_def prod.case by blast

lemma render_inv_close:
  assumes "render_inv st src"
  shows "render_inv (closeCurrentList st) src"
    and "\<exists>result. closeCurrentList st = (result, None, [])"
proof -
  obtain result currentList listItems where st: "st = (result, currentList, listItems)"
    by (cases st)
  from assms obtain ss s2 where
    rs: "list_all2 renders result ss" and ri: "renders (concat listItems) s2" and
    sp: "filter isSpecial (concat ss @ s2) = filter isSpecial src" and
    none: "currentList = None \<longrightarrow> listItems = []" and
    tag: "currentList = None \<or> currentList = Some ''ol'' \<or> currentList = Some ''ul''"
    unfolding st by (rule render_invE)
  show "\<exists>result. closeCurrentList st = (result, None, [])"
    using none by (auto simp: closeCurrentList_def st split: option.splits)
  show "render_inv (closeCurrentList st) src"
  proof (cases "currentList \<noteq> None \<and> listItems \<noteq> []")
    case False
    then have nil: "listItems = []" using none by blast
    then have cl: "closeCurrentList st = (result, None, [])"
      by (auto simp: closeCurrentList_def st split: option.splits)
    show ?thesis
      unfolding cl using rs ri sp by (intro render_invI [of result ss _ s2]) (simp_all add: nil)
  next
    case True
    then obtain t where t: "currentList = Some t" "t = ''ol'' \<or> t = ''ul''"
      using tag by auto
    let ?block = "''<'' @ t @ ''>'' @ concat listItems @ ''</'' @ t @ ''>''"
    have cl: "closeCurrentList st = (result @ [?block], None, [])"
      using True t by (simp add: closeCurrentList_def st)
    have "renders ?block s2" using ri t(2) by (rule renders_list_block)
    then have 1: "list_all2 renders (result @ [?block]) (ss @ [s2])"
      using rs by (simp add: list_all2_appendI)
    have 2: "renders (concat []) []" by (simp add: renders_Nil)
    have 3: "filter isSpecial (concat (ss @ [s2]) @ []) = filter isSpecial src"
      using sp by simp
    show ?thesis
      unfolding cl using 1 2 3 by (rule render_invI) simp_all
  qed
qed

lemma render_inv_push:
  assumes "render_inv st src" "tag = ''ol'' \<or> tag = ''ul''"
    "filter isSpecial item = filter isSpecial x"
  shows "render_inv (pushItem tag item st) (src @ x)"
proof -
  define st1 where "st1 =
    (if fst (snd st) \<noteq> Some tag
     then (case closeCurrentList st of (result, currentList, listItems) \<Rightarrow>
             (result, Some tag, listItems))
     else st)"
  obtain result currentList listItems where s1: "st1 = (result, currentList, listItems)"
    by (cases st1)
  have "render_inv st1 src \<and> currentList = Some tag"
  proof (cases "fst (snd st) \<noteq> Some tag")
    case False
    then have "st1 = st" by (simp add: st1_def)
    with False assms(1) s1 show ?thesis by auto
  next
    case True
    from render_inv_close(2) [OF assms(1)] obtain res where
      c: "closeCurrentList st = (res, None, [])" by blast
    have i: "render_inv (res, None, []) src"
      using render_inv_close(1) [OF assms(1)] c by simp
    have e: "st1 = (res, Some tag, [])" using True by (simp add: st1_def c)
    from i obtain ss s2 where "list_all2 renders res ss" "renders (concat []) s2"
      "filter isSpecial (concat ss @ s2) = filter isSpecial src"
      by (rule render_invE)
    then have "render_inv (res, Some tag, []) src"
      using assms(2) by (intro render_invI [of res ss _ s2]) auto
    with e s1 show ?thesis by simp
  qed
  then have inv1: "render_inv (result, currentList, listItems) src" and cur: "currentList = Some tag"
    unfolding s1 by blast+
  from inv1 obtain ss s2 where
    rs: "list_all2 renders result ss" and ri: "renders (concat listItems) s2" and
    sp: "filter isSpecial (concat ss @ s2) = filter isSpecial src"
    by (rule render_invE)
  let ?li = "''<li>'' @ boldReplace (escapeHtml item) @ ''</li>''"
  have p: "pushItem tag item st = (result, currentList, listItems @ [?li])"
    unfolding pushItem_def st1_def [symmetric] s1 by simp
  have "renders (boldReplace (escapeHtml item) @ ''</li>'') item"
    using renders_append [OF renders_boldReplace renders_closing(3), of item] by simp
  then have "renders ?li item" by (rule renders_tags)
  with ri have "renders (concat listItems @ ?li) (s2 @ item)" by (rule renders_append)
  then have 1: "renders (concat (listItems @ [?li])) (s2 @ item)" by simp
  have 2: "filter isSpecial (concat ss @ s2 @ item) = filter isSpecial (src @ x)"
    using sp assms(3) by simp
  show ?thesis
    unfolding p using rs 1 2 cur assms(2) by (intro render_invI [of result ss _ "s2 @ item"]) auto
qed

lemma render_inv_line:
  assumes "render_inv st src"
  shows "render_inv (renderLine st line) (src @ line)"
proof (cases "numberedMatch (trim line)")
  case (Some item)
  then have "filter isSpecial item = filter isSpecial line"
    using specials_numberedMatch [of "trim line" item] by (simp add: specials_trim)
  with assms have "render_inv (pushItem ''ol'' item st) (src @ line)"
    by (intro render_inv_push) simp_all
  with Some show ?thesis by (simp add: renderLine_def)
next
  case None
  show ?thesis
  proof (cases "bulletMatch (trim line)")
    case (Some item)
    then have "filter isSpecial item = filter isSpecial line"
      using specials_bulletMatch [of "trim line" item] by (simp add: specials_trim)
    with assms have "render_inv (pushItem ''ul'' item st) (src @ line)"
      by (intro render_inv_push) simp_all
    with None Some show ?thesis by (simp add: renderLine_def)
  next
    case nb: None
    from render_inv_close(2) [OF assms] obtain result where
      c: "closeCurrentList st = (result, None, [])" by blast
    have i: "render_inv (result, None, []) src"
      using render_inv_close(1) [OF assms] c by simp
    from i obtain ss s2 where rs: "list_all2 renders result ss" and
      r2: "renders (concat []) s2" and
      sp0: "filter isSpecial (concat ss @ s2) = filter isSpecial src"
      by (rule render_invE)
    have "filter isSpecial s2 = []" using r2 by (simp add: renders_Nil_specials)
    with sp0 have sp: "filter isSpecial (concat ss) = filter isSpecial src" by simp
    have e: "renders (concat []) []" by (simp add: renders_Nil)
    show ?thesis
    proof (cases "trim line = []")
      case True
      then have "filter isSpecial line = []"
        using specials_trim [of line] by simp
      then have "filter isSpecial (concat ss @ []) = filter isSpecial (src @ line)"
        using sp by simp
      with rs e have "render_inv (result, None, []) (src @ line)"
        by (rule render_invI) simp_all
      with None nb c True show ?thesis by (simp add: renderLine_def)
    next
      case False
      let ?p = "boldReplace (escapeHtml (trim line))"
      have "renders ?p (trim line)" by (rule renders_boldReplace)
      then have 1: "list_all2 renders (result @ [?p]) (ss @ [trim line])"
        using rs by (simp add: list_all2_appendI)
      have 2: "filter isSpecial (concat (ss @ [trim line]) @ []) = filter isSpecial (src @ line)"
        using sp by (simp add: specials_trim)
      from 1 e 2 have "render_inv (result @ [?p], None, []) (src @ line)"
        by (rule render_invI) simp_all
      with None nb c False show ?thesis by (simp add: renderLine_def)
    qed
  qed
qed

lemma render_inv_foldl:
  "render_inv st src \<Longrightarrow> render_inv (foldl renderLine st ls) (src @ concat ls)"
proof (induction ls arbitrary: st src)
  case Nil
  then show ?case by simp
next
  case (Cons l ls)
  from Cons.prems have "render_inv (renderLine st l) (src @ l)" by (rule render_inv_line)
  then have "render_inv (foldl renderLine (renderLine st l) ls) ((src @ l) @ concat ls)"
    by (rule Cons.IH)
  then show ?case by simp
qed
section \<open>Joining the rendered blocks\<close>

lemma renders_blank:
  assumes "renders out src" "trim out = []"
  shows "filter isSpecial src = []"
proof -
  from assms(1) obtain shown where m: "markup out shown"
    and s: "filter isSpecial shown = filter isSpecial src"
    unfolding renders_def by blast
  have sp: "\<forall>c \<in> set out. isSpace c" using assms(2) by (simp add: trim_empty_iff)
  with m have "shown = out" by (rule markup_only_space)
  then have "filter isSpecial shown = []" using sp by (simp add: space_not_special)
  with s show ?thesis by simp
qed

lemma renders_filter_blank:
  "list_all2 renders outs ss \<Longrightarrow>
   \<exists>ss'. list_all2 renders (filter (\<lambda>line. trim line \<noteq> []) outs) ss' \<and>
         filter isSpecial (concat ss') = filter isSpecial (concat ss)"
proof (induction rule: list_all2_induct)
  case Nil
  show ?case by simp
next
  case (Cons out outs src ss)
  then obtain ss' where ih: "list_all2 renders (filter (\<lambda>line. trim line \<noteq> []) outs) ss'"
    "filter isSpecial (concat ss') = filter isSpecial (concat ss)" by blast
  show ?case
  proof (cases "trim out = []")
    case True
    with Cons.hyps(1) have "filter isSpecial src = []" by (rule renders_blank)
    then have "filter isSpecial (concat ss') = filter isSpecial (concat (src # ss))"
      using ih(2) by simp
    with ih(1) True show ?thesis by auto
  next
    case False
    have "list_all2 renders (out # filter (\<lambda>line. trim line \<noteq> []) outs) (src # ss')"
      using Cons.hyps(1) ih(1) by simp
    moreover have "filter isSpecial (concat (src # ss')) = filter isSpecial (concat (src # ss))"
      using ih(2) by simp
    ultimately show ?thesis using False by auto
  qed
qed

lemma renders_addBreaks:
  "list_all2 renders outs ss \<Longrightarrow> list_all2 renders (addBreaks prev outs) ss"
proof (induction outs arbitrary: prev ss)
  case Nil
  then show ?case by simp
next
  case (Cons out outs)
  from Cons.prems obtain src ss1 where ss: "ss = src # ss1" and
    r: "renders out src" and rest: "list_all2 renders outs ss1"
    by (auto simp: list_all2_Cons1)
  have tl: "list_all2 renders (addBreaks (Some out) outs) ss1"
    using rest by (rule Cons.IH)
  have br: "renders (''<br>'' @ out) src" using r by (rule renders_tags)
  show ?case
    unfolding ss using r br tl by (simp del: append.simps)
qed

lemma renders_concat: "list_all2 renders outs ss \<Longrightarrow> renders (concat outs) (concat ss)"
proof (induction rule: list_all2_induct)
  case Nil
  show ?case by (simp add: renders_Nil)
next
  case (Cons out outs src ss)
  then show ?case by (simp add: renders_append)
qed

lemma specials_join_lines: "filter isSpecial (join_lines ls) = filter isSpecial (concat ls)"
  by (induction ls rule: join_lines.induct) (simp_all add: isSpecial_def)

lemma token_split:
  assumes "t @ out = front @ CHR ''<'' # rest" "t \<noteq> []" "CHR ''<'' \<notin> set (tl t)"
  shows "(front = [] \<and> prefix t (CHR ''<'' # rest)) \<or> (\<exists>us. out = us @ CHR ''<'' # rest)"
proof -
  from assms(1) consider
    us where "t = front @ us" "us @ out = CHR ''<'' # rest"
    | us where "t @ us = front" "out = us @ CHR ''<'' # rest"
    unfolding append_eq_append_conv2 by blast
  then show ?thesis
  proof cases
    case 1
    show ?thesis
    proof (cases front)
      case Nil
      with 1 have "t @ out = CHR ''<'' # rest" by simp
      then have "prefix t (CHR ''<'' # rest)" unfolding prefix_def by metis
      with Nil show ?thesis by blast
    next
      case (Cons f front')
      show ?thesis
      proof (cases us)
        case Nil
        with 1(2) have "out = [] @ CHR ''<'' # rest" by simp
        then show ?thesis by blast
      next
        case c: (Cons u us')
        with 1(2) have "u = CHR ''<''" by simp
        with 1(1) Cons c have "CHR ''<'' \<in> set (tl t)" by simp
        with assms(3) show ?thesis by blast
      qed
    qed
  next
    case 2
    then show ?thesis by blast
  qed
qed

lemma markup_every_lt:
  "markup out shown \<Longrightarrow> out = front @ CHR ''<'' # rest \<Longrightarrow>
   \<exists>tag \<in> set RENDERER_TAGS. prefix tag (CHR ''<'' # rest)"
proof (induction arbitrary: front rule: markup.induct)
  case markup_Nil
  then show ?case by simp
next
  case (markup_plain c out shown)
  show ?case
  proof (cases front)
    case Nil
    with markup_plain.prems markup_plain.hyps(1) show ?thesis by (simp add: isSpecial_def)
  next
    case (Cons f front')
    with markup_plain.prems have "out = front' @ CHR ''<'' # rest" by simp
    then show ?thesis by (rule markup_plain.IH)
  qed
next
  case (markup_tag tag out shown)
  have "tag \<noteq> []" "CHR ''<'' \<notin> set (tl tag)"
    using markup_tag.hyps(1) by (auto simp: RENDERER_TAGS_def)
  with markup_tag.prems
  have "(front = [] \<and> prefix tag (CHR ''<'' # rest)) \<or> (\<exists>us. out = us @ CHR ''<'' # rest)"
    by (rule token_split)
  then show ?case using markup_tag.hyps(1) markup_tag.IH by blast
next
  case (markup_amp out shown)
  from markup_amp.prems
  have "(front = [] \<and> prefix ''&amp;'' (CHR ''<'' # rest)) \<or> (\<exists>us. out = us @ CHR ''<'' # rest)"
    by (rule token_split) simp_all
  then have "\<exists>us. out = us @ CHR ''<'' # rest" by simp
  then show ?case using markup_amp.IH by blast
next
  case (markup_lt out shown)
  from markup_lt.prems
  have "(front = [] \<and> prefix ''&lt;'' (CHR ''<'' # rest)) \<or> (\<exists>us. out = us @ CHR ''<'' # rest)"
    by (rule token_split) simp_all
  then have "\<exists>us. out = us @ CHR ''<'' # rest" by simp
  then show ?case using markup_lt.IH by blast
next
  case (markup_gt out shown)
  from markup_gt.prems
  have "(front = [] \<and> prefix ''&gt;'' (CHR ''<'' # rest)) \<or> (\<exists>us. out = us @ CHR ''<'' # rest)"
    by (rule token_split) simp_all
  then have "\<exists>us. out = us @ CHR ''<'' # rest" by simp
  then show ?case using markup_gt.IH by blast
next
  case (markup_nbsp out shown)
  from markup_nbsp.prems
  have "(front = [] \<and> prefix ''&nbsp;'' (CHR ''<'' # rest)) \<or> (\<exists>us. out = us @ CHR ''<'' # rest)"
    by (rule token_split) simp_all
  then have "\<exists>us. out = us @ CHR ''<'' # rest" by simp
  then show ?case using markup_nbsp.IH by blast
qed

lemma renders_markdownToHTML: "renders (markdownToHTML text) text"
proof (cases "text = []")
  case True
  then show ?thesis by (simp add: markdownToHTML_def renders_Nil)
next
  case False
  define lines where "lines = split_lines text"
  define st where "st = closeCurrentList (foldl renderLine ([], None, []) lines)"
  define body where "body = filter (\<lambda>line. trim line \<noteq> []) (fst st)"
  define joined where "joined = concat (addBreaks None body)"
  have src: "filter isSpecial (concat lines) = filter isSpecial text"
    using specials_join_lines [of lines] by (simp add: lines_def join_split_lines)
  have "render_inv ([], None, []) []"
    by (rule render_invI [of _ "[]" _ "[]"]) (simp_all add: renders_Nil)
  then have "render_inv (foldl renderLine ([], None, []) lines) ([] @ concat lines)"
    by (rule render_inv_foldl)
  then have inv: "render_inv (foldl renderLine ([], None, []) lines) (concat lines)"
    by simp
  from render_inv_close(2) [OF inv] obtain result where st_eq: "st = (result, None, [])"
    unfolding st_def by blast
  have "render_inv (result, None, []) (concat lines)"
    using render_inv_close(1) [OF inv] st_eq by (simp add: st_def)
  then obtain ss s2 where rs: "list_all2 renders result ss" and r2: "renders (concat []) s2"
    and sp0: "filter isSpecial (concat ss @ s2) = filter isSpecial (concat lines)"
    by (rule render_invE)
  have "filter isSpecial s2 = []" using r2 by (simp add: renders_Nil_specials)
  with sp0 src have sp: "filter isSpecial (concat ss) = filter isSpecial text" by simp
  from renders_filter_blank [OF rs] obtain ss' where
    rb: "list_all2 renders body ss'" and
    sp': "filter isSpecial (concat ss') = filter isSpecial (concat ss)"
    unfolding body_def st_eq by auto
  have "list_all2 renders (addBreaks None body) ss'" using rb by (rule renders_addBreaks)
  then have "renders joined (concat ss')" unfolding joined_def by (rule renders_concat)
  then have j: "renders joined text"
    by (rule renders_cong) (rule trans [OF sp' sp])
  have "renders (joined @ ''</p>'') text"
    using renders_append [OF j renders_closing(4)] by simp
  then have p: "renders (''<p>'' @ joined @ ''</p>'') text" by (rule renders_tags)
  have eq: "markdownToHTML text =
      (if joined \<noteq> [] \<and> \<not> str_includes joined ''<ol>'' \<and> \<not> str_includes joined ''<ul>''
       then ''<p>'' @ joined @ ''</p>'' else joined)"
    unfolding markdownToHTML_def Let_def joined_def body_def st_def lines_def
    using False by (simp only: if_False)
  show ?thesis
  proof (cases "joined \<noteq> [] \<and> \<not> str_includes joined ''<ol>'' \<and> \<not> str_includes joined ''<ul>''")
    case True
    then have "markdownToHTML text = ''<p>'' @ joined @ ''</p>''"
      unfolding eq by simp
    with p show ?thesis by (simp only:)
  next
    case False
    then have "markdownToHTML text = joined"
      unfolding eq by auto
    with j show ?thesis by (simp only:)
  qed
qed

text \<open>
  C9. The output of \<open>markdownToHTML\<close> is markup made of the tags \<open>ol\<close>, \<open>ul\<close>, \<open>li\<close>,
  \<open>strong\<close>, \<open>p\<close> and \<open>br\<close> that the renderer writes, of the character references
  \<open>&amp;\<close>, \<open>&lt;\<close>, \<open>&gt;\<close> and \<open>&nbsp;\<close>, and of characters other than \<open>&\<close>, \<open><\<close>
  and \<open>>\<close>. The characters \<open>&\<close>, \<open><\<close> and \<open>>\<close> of the input are, each and in their
  order, the characters \<open>&\<close>, \<open><\<close> and \<open>>\<close> of the text that the markup shows: they appear
  as character references only, and no tag of the output comes from the input. In
  particular every \<open><\<close> of the output opens one of the renderer's tags.
\<close>

theorem markdownToHTML_escapes_input:
  "(\<exists>shown. markup (markdownToHTML text) shown \<and>
             filter isSpecial shown = filter isSpecial text) \<and>
   (\<forall>front rest. markdownToHTML text = front @ CHR ''<'' # rest \<longrightarrow>
      (\<exists>tag \<in> set RENDERER_TAGS. prefix tag (CHR ''<'' # rest)))"
proof -
  from renders_markdownToHTML obtain shown where
    m: "markup (markdownToHTML text) shown" and
    s: "filter isSpecial shown = filter isSpecial text"
    unfolding renders_def by blast
  have "\<forall>front rest. markdownToHTML text = front @ CHR ''<'' # rest \<longrightarrow>
      (\<exists>tag \<in> set RENDERER_TAGS. prefix tag (CHR ''<'' # rest))"
    using markup_every_lt [OF m] by blast
  with m s show ?thesis by blast
qed

theorem markdownToHTML_escapes_input_witness:
  "markdownToHTML (''<img src=x> & **b**'' @ [CHR 0x0A] @ ''1. <i>'') =
     ''&lt;img src=x&gt; &amp; <strong>b</strong><ol><li>&lt;i&gt;</li></ol>'' \<and>
   (\<exists>shown. markup ''&lt;img src=x&gt; &amp; <strong>b</strong><ol><li>&lt;i&gt;</li></ol>'' shown \<and>
            filter isSpecial shown = ''<>&<>'')"
proof -
  have e: "markdownToHTML (''<img src=x> & **b**'' @ [CHR 0x0A] @ ''1. <i>'') =
     ''&lt;img src=x&gt; &amp; <strong>b</strong><ol><li>&lt;i&gt;</li></ol>''"
    by code_simp
  have f: "filter isSpecial (''<img src=x> & **b**'' @ [CHR 0x0A] @ ''1. <i>'') = ''<>&<>''"
    by code_simp
  show ?thesis
    using markdownToHTML_escapes_input [of "''<img src=x> & **b**'' @ [CHR 0x0A] @ ''1. <i>''"]
    unfolding e f using e by blast
qed

section \<open>Timestamps\<close>

lemma digitValue_digitChar: "d < 10 \<Longrightarrow> digitValue (digitChar d) = d"
proof -
  assume "d < 10"
  then have "d = 0 \<or> d = 1 \<or> d = 2 \<or> d = 3 \<or> d = 4 \<or> d = 5 \<or> d = 6 \<or>
      d = 7 \<or> d = 8 \<or> d = 9" by arith
  then show ?thesis by (elim disjE) (simp_all add: digitValue_def digitChar_def)
qed

lemma isDigit_digitChar: "d < 10 \<Longrightarrow> isDigit (digitChar d)"
proof -
  assume "d < 10"
  then have "d = 0 \<or> d = 1 \<or> d = 2 \<or> d = 3 \<or> d = 4 \<or> d = 5 \<or> d = 6 \<or>
      d = 7 \<or> d = 8 \<or> d = 9" by arith
  then show ?thesis by (elim disjE) (simp_all add: isDigit_def digitChar_def)
qed

lemma showNat_digits: "\<forall>c \<in> set (showNat n). isDigit c"
proof (induction n rule: showNat.induct)
  case (1 n)
  show ?case
  proof (cases "n < 10")
    case True
    then show ?thesis by (subst showNat.simps) (simp add: isDigit_digitChar)
  next
    case False
    have "n mod 10 < 10" by simp
    then have "isDigit (digitChar (n mod 10))" by (rule isDigit_digitChar)
    with 1 False show ?thesis by (subst showNat.simps) auto
  qed
qed

lemma showNat_not_Nil: "showNat n \<noteq> []"
  by (subst showNat.simps) simp

lemma showNat_value:
  "foldl (\<lambda>a d. 10 * a + int (digitValue d)) 0 (showNat n) = int n"
proof (induction n rule: showNat.induct)
  case (1 n)
  show ?case
  proof (cases "n < 10")
    case True
    then show ?thesis by (subst showNat.simps) (simp add: digitValue_digitChar)
  next
    case False
    have m: "digitValue (digitChar (n mod 10)) = n mod 10"
      by (rule digitValue_digitChar) simp
    have "foldl (\<lambda>a d. 10 * a + int (digitValue d)) 0 (showNat n) =
        10 * foldl (\<lambda>a d. 10 * a + int (digitValue d)) 0 (showNat (n div 10)) +
        int (digitValue (digitChar (n mod 10)))"
      using False by (subst showNat.simps) simp
    also have "\<dots> = 10 * int (n div 10) + int (n mod 10)"
      using 1 False m by simp
    also have "\<dots> = int n" by (simp add: zdiv_int zmod_int)
    finally show ?thesis .
  qed
qed

lemma parseInt_showNat: "parseInt (showNat n) = Some (int n)"
proof -
  have d: "\<forall>c \<in> set (showNat n). isDigit c" by (rule showNat_digits)
  have ne: "showNat n \<noteq> []" by (rule showNat_not_Nil)
  then have "isDigit (hd (showNat n))" using d by simp
  then have h: "\<not> isSpace (hd (showNat n))" "hd (showNat n) \<noteq> CHR ''-''" "hd (showNat n) \<noteq> CHR ''+''"
    by (auto simp: isDigit_def isSpace_def whitespaceChars_def)
  have t: "dropWhile isSpace (showNat n) = showNat n"
    using ne h(1) by (simp add: dropWhile_eq_self_iff)
  have p: "\<not> prefix ''-'' (showNat n)" "\<not> prefix ''+'' (showNat n)"
    using ne h(2,3) by (cases "showNat n"; simp)+
  have w: "takeWhile isDigit (showNat n) = showNat n"
    using d by (simp add: takeWhile_eq_all_conv)
  show ?thesis
    unfolding parseInt_def Let_def t using p ne by (simp add: w showNat_value)
qed

section \<open>Saving and loading the history\<close>

lemma keys_differ: "storageKey \<noteq> storageTimestampKey"
  by (simp add: storageKey_def storageTimestampKey_def)

lemma days_less_iff:
  "(of_int age :: rat) / (1000 * 60 * 60 * 24) < historyExpiryDays \<longleftrightarrow> age < expiryMillis"
proof -
  have "(of_int age :: rat) / (1000 * 60 * 60 * 24) < 30 \<longleftrightarrow> (of_int age :: rat) < 2592000000"
    by (simp add: field_simps)
  also have "\<dots> \<longleftrightarrow> age < 2592000000"
    using of_int_less_iff [of age 2592000000, where ?'a = rat] by simp
  finally show ?thesis by (simp add: historyExpiryDays_def expiryMillis_def)
qed

text \<open>
  C8. Let the store save a history \<open>h\<close> at the time \<open>saved\<close>, both writes being accepted
  by the browser, and let the browser's JSON functions give \<open>h\<close> back from its text, the
  text not being empty. A new page that loads at the time \<open>now\<close> has the history \<open>h\<close>
  again when less than thirty days have passed, and has the empty history, with both keys
  removed from the storage, when thirty days or more have passed.
\<close>

theorem history_round_trip:
  assumes json: "parse b (stringify b h) = Some h" "stringify b h \<noteq> []"
    and accepted: "fits b ((localStorage c)(storageKey \<mapsto> stringify b h))"
      "fits b ((localStorage c)(storageKey \<mapsto> stringify b h, storageTimestampKey \<mapsto> showNat saved))"
    and h: "conversationHistory c = h"
  shows "(int now - int saved < expiryMillis \<longrightarrow>
            conversationHistory
              (loadHistory b now (newChatbot (localStorage (saveHistory b saved c)))) = h) \<and>
         (int now - int saved \<ge> expiryMillis \<longrightarrow>
            conversationHistory
              (loadHistory b now (newChatbot (localStorage (saveHistory b saved c)))) = JArr [] \<and>
            localStorage
              (loadHistory b now (newChatbot (localStorage (saveHistory b saved c)))) storageKey = None \<and>
            localStorage
              (loadHistory b now (newChatbot (localStorage (saveHistory b saved c))))
                storageTimestampKey = None)"
proof -
  let ?store = "(localStorage c)(storageKey \<mapsto> stringify b h, storageTimestampKey \<mapsto> showNat saved)"
  have saved: "localStorage (saveHistory b saved c) = ?store"
    using accepted h by (simp add: saveHistory_def setItem_def)
  have k1: "?store storageKey = Some (stringify b h)"
    using keys_differ by simp
  have k2: "?store storageTimestampKey = Some (showNat saved)"
    by simp
  define fresh where "fresh = newChatbot ?store"
  have s1: "localStorage fresh storageKey = Some (stringify b h)"
    unfolding fresh_def newChatbot_def using keys_differ by simp
  have s2: "localStorage fresh storageTimestampKey = Some (showNat saved)"
    unfolding fresh_def newChatbot_def by simp
  have pres: "present (Some (stringify b h))" "present (Some (showNat saved))"
    using json(2) showNat_not_Nil by (simp_all add: present_def)
  have "loadHistory b now fresh =
      (if (of_int (int now - int saved) :: rat) / (1000 * 60 * 60 * 24) < historyExpiryDays
       then fresh\<lparr>conversationHistory := h\<rparr>
       else clearHistory fresh)"
    unfolding loadHistory_def Let_def s1 s2
    using pres json(1) by (simp add: parseInt_showNat)
  then have load: "loadHistory b now fresh =
      (if int now - int saved < expiryMillis
       then fresh\<lparr>conversationHistory := h\<rparr>
       else clearHistory fresh)"
    unfolding days_less_iff .
  have cleared: "conversationHistory (clearHistory fresh) = JArr []"
    "localStorage (clearHistory fresh) storageKey = None"
    "localStorage (clearHistory fresh) storageTimestampKey = None"
    by (simp_all add: clearHistory_def removeItem_def)
  show ?thesis
    unfolding saved fresh_def [symmetric] load using cleared by simp
qed

theorem history_round_trip_witness:
  "conversationHistory
     (loadHistory example_browser 1702505600000
        (newChatbot (localStorage (saveHistory example_browser 1700000000000
           \<lparr>conversationHistory = example_history, localStorage = Map.empty\<rparr>)))) =
     example_history \<and>
   conversationHistory
     (loadHistory example_browser 1702592000000
        (newChatbot (localStorage (saveHistory example_browser 1700000000000
           \<lparr>conversationHistory = example_history, localStorage = Map.empty\<rparr>)))) =
     JArr []"
proof -
  let ?c = "\<lparr>conversationHistory = example_history, localStorage = Map.empty\<rparr>"
  have j1: "parse example_browser (stringify example_browser example_history) = Some example_history"
    unfolding example_browser_def browser.simps by code_simp
  have j2: "stringify example_browser example_history \<noteq> []"
    unfolding example_browser_def browser.simps by code_simp
  have f1: "fits example_browser
      ((localStorage ?c)(storageKey \<mapsto> stringify example_browser example_history))"
    by (simp add: example_browser_def)
  have f2: "fits example_browser
      ((localStorage ?c)(storageKey \<mapsto> stringify example_browser example_history,
         storageTimestampKey \<mapsto> showNat 1700000000000))"
    by (simp add: example_browser_def)
  have h: "conversationHistory ?c = example_history" by simp
  have within: "int 1702505600000 - int 1700000000000 < expiryMillis"
    by (simp add: expiryMillis_def)
  have after: "int 1702592000000 - int 1700000000000 \<ge> expiryMillis"
    by (simp add: expiryMillis_def)
  show ?thesis
    using history_round_trip [OF j1 j2 f1 f2 h, of 1702505600000]
      history_round_trip [OF j1 j2 f1 f2 h, of 1702592000000] within after
    by blast
qed

end
